theory Spec2Isabelle
  imports Complex_Main "HOL-Library.AList" "HOL-Library.Multiset"
begin

section \<open>Common Python notions\<close>

text \<open>
  Floating-point scores are modelled as real numbers, Python integers as \<open>int\<close>.
  An exception of the source is the left summand of a result.
\<close>

datatype py_error = ZeroDivisionError | IndexError

text \<open>The slice \<open>xs[:n]\<close>: a negative bound counts from the end of the list.\<close>

definition py_take :: "int \<Rightarrow> 'a list \<Rightarrow> 'a list" where
  "py_take n xs = (if 0 \<le> n then take (nat n) xs else take (nat (int (length xs) + n)) xs)"

text \<open>
  \<open>xs.sort(key=f, reverse=True)\<close>: Python's sort is stable and keeps the
  original order of equal keys under \<open>reverse=True\<close> as well, which is a stable ascending
  sort on the negated key.
\<close>

definition sort_desc :: "('a \<Rightarrow> real) \<Rightarrow> 'a list \<Rightarrow> 'a list" where
  "sort_desc f xs = sort_key (\<lambda>x. - f x) xs"

section \<open>Reciprocal Rank Fusion (app/services/search/rrf.py)\<close>

text \<open>A ranked list holds tuples \<open>(doc_id, candidate_id, score)\<close>.\<close>

type_synonym ranked = "string \<times> string \<times> real"

text \<open>The per-document dictionary that \<open>merge\<close> builds in \<open>doc_data\<close>.\<close>

record doc_entry =
  de_candidate_id :: string
  de_rrf_score :: real
  de_keyword_rank :: "int option"
  de_keyword_score :: "real option"
  de_semantic_rank :: "int option"
  de_semantic_score :: "real option"

record RRFResult =
  doc_id :: string
  candidate_id :: string
  combined_score :: real
  keyword_rank :: "int option"
  semantic_rank :: "int option"
  keyword_score :: "real option"
  semantic_score :: "real option"

datatype source = Keyword | Semantic

definition new_entry :: "string \<Rightarrow> doc_entry" where
  "new_entry cand_id =
     \<lparr>de_candidate_id = cand_id, de_rrf_score = 0,
      de_keyword_rank = None, de_keyword_score = None,
      de_semantic_rank = None, de_semantic_score = None\<rparr>"

definition set_rank :: "source \<Rightarrow> int \<Rightarrow> real \<Rightarrow> doc_entry \<Rightarrow> doc_entry" where
  "set_rank src rank score e =
     (case src of
        Keyword \<Rightarrow> e\<lparr>de_keyword_rank := Some rank, de_keyword_score := Some score\<rparr>
      | Semantic \<Rightarrow> e\<lparr>de_semantic_rank := Some rank, de_semantic_score := Some score\<rparr>)"

text \<open>
  One of the two loops \<open>for rank, (doc_id, cand_id, score) in enumerate(results, 1)\<close>
  of \<open>merge\<close>. The dictionary is an association list in insertion order; a new key is
  appended. \<open>1.0 / (self.k + rank)\<close> raises when the divisor is zero.
\<close>

fun rrf_pass ::
  "source \<Rightarrow> int \<Rightarrow> int \<Rightarrow> ranked list \<Rightarrow> (string \<times> doc_entry) list
     \<Rightarrow> py_error + (string \<times> doc_entry) list" where
  "rrf_pass src k rank [] doc_data = Inr doc_data"
| "rrf_pass src k rank ((d, cand_id, score) # rest) doc_data =
     (let e0 = (case map_of doc_data d of None \<Rightarrow> new_entry cand_id | Some e \<Rightarrow> e);
          e1 = set_rank src rank score e0
      in if k + rank = 0 then Inl ZeroDivisionError
         else rrf_pass src k (rank + 1) rest
                (AList.update d (e1\<lparr>de_rrf_score := de_rrf_score e1 + 1 / real_of_int (k + rank)\<rparr>)
                   doc_data))"

definition to_result :: "string \<times> doc_entry \<Rightarrow> RRFResult" where
  "to_result p =
     \<lparr>doc_id = fst p, candidate_id = de_candidate_id (snd p),
      combined_score = de_rrf_score (snd p),
      keyword_rank = de_keyword_rank (snd p), semantic_rank = de_semantic_rank (snd p),
      keyword_score = de_keyword_score (snd p), semantic_score = de_semantic_score (snd p)\<rparr>"

definition merge :: "int \<Rightarrow> ranked list \<Rightarrow> ranked list \<Rightarrow> py_error + RRFResult list" where
  "merge k bm25_results vector_results =
     (case rrf_pass Keyword k 1 bm25_results [] of
        Inl err \<Rightarrow> Inl err
      | Inr dd1 \<Rightarrow>
          (case rrf_pass Semantic k 1 vector_results dd1 of
             Inl err \<Rightarrow> Inl err
           | Inr dd2 \<Rightarrow> Inr (sort_desc combined_score (map to_result dd2))))"

text \<open>
  \<open>merge_candidate_level\<close>: \<open>candidate_scores\<close> is a \<open>defaultdict(float)\<close>, so a missing
  candidate starts at \<open>0.0\<close>.
\<close>

fun aggregate :: "RRFResult list \<Rightarrow> (string \<times> real) list \<Rightarrow> (string \<times> real) list" where
  "aggregate [] candidate_scores = candidate_scores"
| "aggregate (r # rest) candidate_scores =
     aggregate rest
       (AList.update (candidate_id r)
          ((case map_of candidate_scores (candidate_id r) of None \<Rightarrow> 0 | Some s \<Rightarrow> s)
             + combined_score r)
          candidate_scores)"

definition merge_candidate_level ::
  "int \<Rightarrow> ranked list \<Rightarrow> ranked list \<Rightarrow> py_error + (string \<times> real) list" where
  "merge_candidate_level k bm25_results vector_results =
     (case merge k bm25_results vector_results of
        Inl err \<Rightarrow> Inl err
      | Inr doc_results \<Rightarrow> Inr (sort_desc snd (aggregate doc_results [])))"

text \<open>
  The sum of \<open>1/(k + p)\<close> over the 1-based positions \<open>p\<close> at which document \<open>d\<close>
  occurs in a ranked list.
\<close>

definition rank_sum :: "int \<Rightarrow> ranked list \<Rightarrow> string \<Rightarrow> real" where
  "rank_sum k xs d =
     (\<Sum>i<length xs. if fst (xs ! i) = d then 1 / real_of_int (k + int i + 1) else 0)"

text \<open>The two ranked lists of the specification's scenario B.\<close>

definition scenario_bm25 :: "ranked list" where
  "scenario_bm25 = [(''d1'', ''c1'', 10), (''d2'', ''c2'', 8)]"

definition scenario_semantic :: "ranked list" where
  "scenario_semantic = [(''d2'', ''c2'', 95 / 100), (''d1'', ''c1'', 9 / 10)]"

text \<open>Auxiliary notions for the proofs about the two loops.\<close>

fun contrib :: "int \<Rightarrow> int \<Rightarrow> ranked list \<Rightarrow> string \<Rightarrow> real" where
  "contrib k r [] d = 0"
| "contrib k r (x # xs) d =
     (if fst x = d then 1 / real_of_int (k + r) else 0) + contrib k (r + 1) xs d"

definition score_of :: "(string \<times> doc_entry) list \<Rightarrow> string \<Rightarrow> real" where
  "score_of dd d = (case map_of dd d of None \<Rightarrow> 0 | Some e \<Rightarrow> de_rrf_score e)"

definition total_of :: "(string \<times> real) list \<Rightarrow> string \<Rightarrow> real" where
  "total_of cs c = (case map_of cs c of None \<Rightarrow> 0 | Some s \<Rightarrow> s)"

definition owned_by :: "string \<Rightarrow> RRFResult list \<Rightarrow> RRFResult list" where
  "owned_by c rs = filter (\<lambda>e. candidate_id e = c) rs"

section \<open>Result assembly of the orchestrator (app/services/search/hybrid.py)\<close>

text \<open>
  Modelled from the spec: \<open>VectorSearchResult\<close> is declared in
  \<open>app/services/search/vector.py\<close>, which is not among the sources. The record holds the
  fields of the semantic provider's interface (chunk id, candidate id, similarity, content,
  section, metadata) and the three further attributes that \<open>hybrid.py\<close> reads.
\<close>

record VectorSearchResult =
  vr_chunk_id :: string
  vr_candidate_id :: string
  vr_similarity :: real
  vr_content :: string
  vr_section :: string
  vr_enriched_content :: "string option"
  vr_metadata :: "(string \<times> string) list"
  vr_full_name :: "string option"
  vr_top_skills :: "string list"

record ChunkMatch =
  cm_chunk_id :: string
  cm_section :: string
  cm_subsection :: "string option"
  cm_content :: string
  cm_enriched_content :: "string option"
  cm_score :: real
  cm_match_type :: string

record SearchResult =
  sr_candidate_id :: string
  sr_full_name :: string
  sr_email :: "string option"
  sr_headline :: "string option"
  sr_total_experience_years :: "real option"
  sr_top_skills :: "string list"
  sr_combined_score :: real
  sr_keyword_rank :: "int option"
  sr_semantic_rank :: "int option"
  sr_matched_chunks :: "ChunkMatch list"
  sr_skills_matched :: "string list"
  sr_skills_missing :: "string list"

text \<open>Truthiness of an optional rank: \<open>None\<close> and \<open>0\<close> are false.\<close>

definition truthy_rank :: "int option \<Rightarrow> bool" where
  "truthy_rank r = (case r of None \<Rightarrow> False | Some n \<Rightarrow> n \<noteq> 0)"

text \<open>\<open>vector_lookup = {vr.chunk_id: vr for vr in vector_raw}\<close>: a later entry wins.\<close>

definition vector_lookup :: "VectorSearchResult list \<Rightarrow> string \<Rightarrow> VectorSearchResult option" where
  "vector_lookup vector_raw = map_of (rev (map (\<lambda>vr. (vr_chunk_id vr, vr)) vector_raw))"

fun group_by_candidate ::
  "RRFResult list \<Rightarrow> (string \<times> RRFResult list) list \<Rightarrow> (string \<times> RRFResult list) list" where
  "group_by_candidate [] by_candidate = by_candidate"
| "group_by_candidate (rrf # rest) by_candidate =
     group_by_candidate rest
       (AList.update (candidate_id rrf)
          ((case map_of by_candidate (candidate_id rrf) of None \<Rightarrow> [] | Some l \<Rightarrow> l) @ [rrf])
          by_candidate)"

definition match_type_of :: "RRFResult \<Rightarrow> string" where
  "match_type_of rrf =
     (if truthy_rank (keyword_rank rrf) \<and> \<not> truthy_rank (semantic_rank rrf) then ''keyword''
      else if truthy_rank (semantic_rank rrf) \<and> \<not> truthy_rank (keyword_rank rrf) then ''semantic''
      else ''hybrid'')"

definition chunk_match :: "(string \<Rightarrow> VectorSearchResult option) \<Rightarrow> RRFResult \<Rightarrow> ChunkMatch" where
  "chunk_match lookup rrf =
     (let vr = lookup (doc_id rrf) in
      \<lparr>cm_chunk_id = doc_id rrf,
       cm_section = (case vr of None \<Rightarrow> [] | Some v \<Rightarrow> vr_section v),
       cm_subsection = (case vr of None \<Rightarrow> None | Some v \<Rightarrow> map_of (vr_metadata v) ''subsection''),
       cm_content = (case vr of None \<Rightarrow> [] | Some v \<Rightarrow> vr_content v),
       cm_enriched_content = (case vr of None \<Rightarrow> None | Some v \<Rightarrow> vr_enriched_content v),
       cm_score = combined_score rrf,
       cm_match_type = match_type_of rrf\<rparr>)"

text \<open>The loop that looks for a name and skills, with its \<open>break\<close>.\<close>

fun find_name_skills ::
  "(string \<Rightarrow> VectorSearchResult option) \<Rightarrow> RRFResult list \<Rightarrow> string \<times> string list
     \<Rightarrow> string \<times> string list" where
  "find_name_skills lookup [] acc = acc"
| "find_name_skills lookup (rrf # rest) (name, skills) =
     (let name1 = (case lookup (doc_id rrf) of
                     None \<Rightarrow> name
                   | Some vr \<Rightarrow>
                       (case vr_full_name vr of
                          None \<Rightarrow> name
                        | Some n \<Rightarrow> if n \<noteq> [] \<and> name = ''Unknown'' then n else name));
          skills1 = (case lookup (doc_id rrf) of
                       None \<Rightarrow> skills
                     | Some vr \<Rightarrow>
                         if vr_top_skills vr \<noteq> [] \<and> skills = [] then vr_top_skills vr else skills)
      in if name1 \<noteq> ''Unknown'' \<and> skills1 \<noteq> [] then (name1, skills1)
         else find_name_skills lookup rest (name1, skills1))"

definition min_rank :: "int list \<Rightarrow> int option" where
  "min_rank rs = (if rs = [] then None else Some (Min (set rs)))"

definition candidate_result ::
  "(string \<Rightarrow> VectorSearchResult option) \<Rightarrow> string \<times> RRFResult list \<Rightarrow> SearchResult" where
  "candidate_result lookup p =
     (let chunks = snd p;
          keyword_ranks = map (\<lambda>c. the (keyword_rank c)) (filter (\<lambda>c. truthy_rank (keyword_rank c)) chunks);
          semantic_ranks = map (\<lambda>c. the (semantic_rank c)) (filter (\<lambda>c. truthy_rank (semantic_rank c)) chunks);
          ns = find_name_skills lookup chunks (''Unknown'', [])
      in \<lparr>sr_candidate_id = fst p,
          sr_full_name = fst ns,
          sr_email = None, sr_headline = None, sr_total_experience_years = None,
          sr_top_skills = snd ns,
          sr_combined_score = sum_list (map combined_score chunks),
          sr_keyword_rank = min_rank keyword_ranks,
          sr_semantic_rank = min_rank semantic_ranks,
          sr_matched_chunks = map (chunk_match lookup) chunks,
          sr_skills_matched = [], sr_skills_missing = []\<rparr>)"

definition build_search_results :: "RRFResult list \<Rightarrow> VectorSearchResult list \<Rightarrow> SearchResult list" where
  "build_search_results rrf_results vector_raw =
     sort_desc sr_combined_score
       (map (candidate_result (vector_lookup vector_raw)) (group_by_candidate rrf_results []))"

definition chunks_of :: "(string \<times> RRFResult list) list \<Rightarrow> string \<Rightarrow> RRFResult list" where
  "chunks_of bc c = (case map_of bc c of None \<Rightarrow> [] | Some l \<Rightarrow> l)"

section \<open>Strings of the Python runtime\<close>

text \<open>
  A Python string is a list of Unicode code points. The Unicode tables behind
  \<open>str.lower\<close>, \<open>str.title\<close>, whitespace (\<open>str.strip\<close>, \<open>str.split\<close>, the class \<open>\\s\<close>)
  and the class \<open>\\w\<close> belong to the interpreter, not to the repository: they are the
  fields of a runtime record that every string operation takes as a parameter.
  Identifiers of documents and candidates are only compared for equality and stay
  \<open>string\<close>.
\<close>

type_synonym pystr = "nat list"

definition lit :: "string \<Rightarrow> pystr" where
  "lit s = map of_char s"

record py_runtime =
  str_lower :: "pystr \<Rightarrow> pystr"
  str_title :: "pystr \<Rightarrow> pystr"
  is_space :: "nat \<Rightarrow> bool"
  is_word :: "nat \<Rightarrow> bool"

text \<open>
  The runtime restricted to ASCII, on which Python's tables are these: letters \<open>A\<close> to
  \<open>Z\<close> and \<open>a\<close> to \<open>z\<close> are cased, whitespace is \<open>\\t \\n \\v \\f \\r\<close>, the separators
  \<open>0x1c\<close> to \<open>0x1f\<close> and the blank, word characters are letters, digits and the
  underscore. \<open>str.title\<close> upper-cases a character that follows an uncased one and
  lower-cases the others. Concrete inputs are evaluated with it.
\<close>

definition ascii_lower_cp :: "nat \<Rightarrow> nat" where
  "ascii_lower_cp c = (if 65 \<le> c \<and> c \<le> 90 then c + 32 else c)"

definition ascii_upper_cp :: "nat \<Rightarrow> nat" where
  "ascii_upper_cp c = (if 97 \<le> c \<and> c \<le> 122 then c - 32 else c)"

definition ascii_cased :: "nat \<Rightarrow> bool" where
  "ascii_cased c = ((65 \<le> c \<and> c \<le> 90) \<or> (97 \<le> c \<and> c \<le> 122))"

fun ascii_title_from :: "bool \<Rightarrow> pystr \<Rightarrow> pystr" where
  "ascii_title_from previous_is_cased [] = []"
| "ascii_title_from previous_is_cased (c # cs) =
     (if previous_is_cased then ascii_lower_cp c else ascii_upper_cp c)
       # ascii_title_from (ascii_cased c) cs"

definition ascii_space :: "nat \<Rightarrow> bool" where
  "ascii_space c = ((9 \<le> c \<and> c \<le> 13) \<or> (28 \<le> c \<and> c \<le> 32))"

definition ascii_word :: "nat \<Rightarrow> bool" where
  "ascii_word c = ((48 \<le> c \<and> c \<le> 57) \<or> ascii_cased c \<or> c = 95)"

definition ascii_runtime :: py_runtime where
  "ascii_runtime =
     \<lparr>str_lower = map ascii_lower_cp, str_title = ascii_title_from False,
      is_space = ascii_space, is_word = ascii_word\<rparr>"

text \<open>
  \<open>text.split()\<close>: the maximal runs of characters that are not whitespace.
\<close>

fun split_from :: "(nat \<Rightarrow> bool) \<Rightarrow> pystr \<Rightarrow> pystr \<Rightarrow> pystr list" where
  "split_from sp cur [] = (if cur = [] then [] else [cur])"
| "split_from sp cur (c # cs) =
     (if sp c then (if cur = [] then split_from sp [] cs else cur # split_from sp [] cs)
      else split_from sp (cur @ [c]) cs)"

definition py_split :: "py_runtime \<Rightarrow> pystr \<Rightarrow> pystr list" where
  "py_split rt text = split_from (is_space rt) [] text"

section \<open>BM25 keyword search (app/services/search/bm25.py)\<close>

text \<open>
  \<open>_tokenize\<close>: lower-case, replace every character that is neither a word character nor
  whitespace by a blank (\<open>re.sub(r"[^\\w\\s]", " ", text)\<close>), split, and drop the tokens
  shorter than two characters.
\<close>

definition tokenize :: "py_runtime \<Rightarrow> pystr \<Rightarrow> pystr list" where
  "tokenize rt text =
     (let text1 = str_lower rt text;
          text2 = map (\<lambda>c. if is_word rt c \<or> is_space rt c then c else 32) text1;
          tokens = py_split rt text2
      in filter (\<lambda>t. 2 \<le> length t) tokens)"

record BM25Document =
  bd_id :: string
  bd_candidate_id :: string
  bd_content :: pystr
  bd_tokens :: "pystr list"
  bd_metadata :: "(string \<times> string) list"

record BM25Search =
  bm_k1 :: real
  bm_b :: real
  bm_epsilon :: real
  bm_documents :: "BM25Document list"
  bm_doc_lengths :: "nat list"
  bm_avgdl :: real
  bm_idf :: "(pystr \<times> real) list"
  bm_doc_freqs :: "(pystr \<times> nat) list"
  bm_indexed :: bool

text \<open>
  \<open>__init__\<close> and its default parameters \<open>k1 = 1.5\<close>, \<open>b = 0.75\<close>, \<open>epsilon = 0.25\<close>.
\<close>

definition new_bm25 :: "real \<Rightarrow> real \<Rightarrow> real \<Rightarrow> BM25Search" where
  "new_bm25 k1 b epsilon =
     \<lparr>bm_k1 = k1, bm_b = b, bm_epsilon = epsilon, bm_documents = [], bm_doc_lengths = [],
      bm_avgdl = 0, bm_idf = [], bm_doc_freqs = [], bm_indexed = False\<rparr>"

definition default_bm25 :: BM25Search where
  "default_bm25 = new_bm25 (15 / 10) (75 / 100) (25 / 100)"

text \<open>
  \<open>index_documents\<close> replaces the whole state of the index. The dictionaries
  \<open>doc_freqs\<close> and \<open>idf\<close> are association lists; \<open>set(doc.tokens)\<close> is walked without
  repetitions (its order does not change what the dictionary maps a token to).
\<close>

definition bump_freq :: "pystr \<Rightarrow> (pystr \<times> nat) list \<Rightarrow> (pystr \<times> nat) list" where
  "bump_freq token dfs =
     AList.update token ((case map_of dfs token of None \<Rightarrow> 0 | Some n \<Rightarrow> n) + 1) dfs"

fun count_doc_freqs :: "BM25Document list \<Rightarrow> (pystr \<times> nat) list \<Rightarrow> (pystr \<times> nat) list" where
  "count_doc_freqs [] dfs = dfs"
| "count_doc_freqs (doc # rest) dfs =
     count_doc_freqs rest (fold bump_freq (remdups (bd_tokens doc)) dfs)"

definition idf_value :: "real \<Rightarrow> nat \<Rightarrow> nat \<Rightarrow> real" where
  "idf_value eps n_docs df =
     max (ln ((real n_docs - real df + 5 / 10) / (real df + 5 / 10) + 1)) eps"

definition index_documents :: "py_runtime \<Rightarrow> BM25Search \<Rightarrow> BM25Document list \<Rightarrow> BM25Search" where
  "index_documents rt self docs =
     (let documents = map (\<lambda>doc. doc\<lparr>bd_tokens := tokenize rt (bd_content doc)\<rparr>) docs;
          doc_lengths = map (\<lambda>doc. length (bd_tokens doc)) documents;
          avgdl = (if doc_lengths \<noteq> [] then real (sum_list doc_lengths) / real (length doc_lengths)
                   else 0);
          doc_freqs = count_doc_freqs documents [];
          n_docs = length documents;
          idf = map (\<lambda>p. (fst p, idf_value (bm_epsilon self) n_docs (snd p))) doc_freqs
      in self\<lparr>bm_documents := documents, bm_doc_lengths := doc_lengths, bm_avgdl := avgdl,
              bm_idf := idf, bm_doc_freqs := doc_freqs, bm_indexed := True\<rparr>)"

text \<open>
  \<open>add_documents\<close> builds documents from the raw lists it is given (\<open>zip\<close> stops at the
  shortest) and passes them, and only them, to \<open>index_documents\<close>.
  \<open>HybridSearchEngine.update_bm25_index\<close> calls it; \<open>HybridSearchEngine.add_candidate_chunks\<close>
  appends the new chunks to the documents of the index and indexes all of them.
\<close>

fun zip4 :: "'a list \<Rightarrow> 'b list \<Rightarrow> 'c list \<Rightarrow> 'd list \<Rightarrow> ('a \<times> 'b \<times> 'c \<times> 'd) list" where
  "zip4 (a # as) (b # bs) (c # cs) (d # ds) = (a, b, c, d) # zip4 as bs cs ds"
| "zip4 _ _ _ _ = []"

definition add_documents ::
  "py_runtime \<Rightarrow> BM25Search \<Rightarrow> string list \<Rightarrow> string list \<Rightarrow> pystr list
     \<Rightarrow> (string \<times> string) list list option \<Rightarrow> BM25Search" where
  "add_documents rt self doc_ids candidate_ids contents metadata_list =
     (let metadata_list1 = (case metadata_list of None \<Rightarrow> map (\<lambda>_. []) doc_ids | Some ml \<Rightarrow> ml);
          documents =
            map (\<lambda>(doc_id, cand_id, content, metadata).
                   \<lparr>bd_id = doc_id, bd_candidate_id = cand_id, bd_content = content,
                    bd_tokens = [], bd_metadata = metadata\<rparr>)
                (zip4 doc_ids candidate_ids contents metadata_list1)
      in index_documents rt self documents)"

definition update_bm25_index ::
  "py_runtime \<Rightarrow> BM25Search \<Rightarrow> string list \<Rightarrow> string list \<Rightarrow> pystr list \<Rightarrow> BM25Search" where
  "update_bm25_index rt bm25 doc_ids candidate_ids contents =
     add_documents rt bm25 doc_ids candidate_ids contents None"

definition add_candidate_chunks ::
  "py_runtime \<Rightarrow> BM25Search \<Rightarrow> string list \<Rightarrow> string \<Rightarrow> pystr list \<Rightarrow> BM25Search" where
  "add_candidate_chunks rt bm25 chunk_ids cand_id contents =
     (let current_docs =
            bm_documents bm25 @
            map (\<lambda>(chunk_id, content).
                   \<lparr>bd_id = chunk_id, bd_candidate_id = cand_id, bd_content = content,
                    bd_tokens = [], bd_metadata = []\<rparr>)
                (zip chunk_ids contents)
      in index_documents rt bm25 current_docs)"

text \<open>
  \<open>_score_document\<close>: the term frequency \<open>tf.get(token, 0)\<close> is the number of times the
  token occurs in the document. The two divisions raise on a zero divisor, and
  \<open>self.doc_lengths[doc_idx]\<close> raises out of range.
\<close>

fun score_tokens ::
  "BM25Search \<Rightarrow> BM25Document \<Rightarrow> nat \<Rightarrow> pystr list \<Rightarrow> real \<Rightarrow> py_error + real" where
  "score_tokens self doc doc_len [] score = Inr score"
| "score_tokens self doc doc_len (token # rest) score =
     (case map_of (bm_idf self) token of
        None \<Rightarrow> score_tokens self doc doc_len rest score
      | Some idf \<Rightarrow>
          (let freq = count_list (bd_tokens doc) token in
           if freq = 0 then score_tokens self doc doc_len rest score
           else if bm_avgdl self = 0 then Inl ZeroDivisionError
           else
             (let numerator = real freq * (bm_k1 self + 1);
                  denominator = real freq + bm_k1 self *
                     (1 - bm_b self + bm_b self * (real doc_len / bm_avgdl self))
              in if denominator = 0 then Inl ZeroDivisionError
                 else score_tokens self doc doc_len rest
                        (score + idf * (numerator / denominator)))))"

definition score_document ::
  "BM25Search \<Rightarrow> BM25Document \<Rightarrow> pystr list \<Rightarrow> nat \<Rightarrow> py_error + real" where
  "score_document self doc query_tokens doc_idx =
     (if doc_idx < length (bm_doc_lengths self)
      then score_tokens self doc (bm_doc_lengths self ! doc_idx) query_tokens 0
      else Inl IndexError)"

fun score_all ::
  "BM25Search \<Rightarrow> pystr list \<Rightarrow> nat \<Rightarrow> BM25Document list \<Rightarrow> py_error + ranked list" where
  "score_all self query_tokens i [] = Inr []"
| "score_all self query_tokens i (doc # rest) =
     (case score_document self doc query_tokens i of
        Inl err \<Rightarrow> Inl err
      | Inr score \<Rightarrow>
          (case score_all self query_tokens (i + 1) rest of
             Inl err \<Rightarrow> Inl err
           | Inr scores \<Rightarrow> Inr ((bd_id doc, bd_candidate_id doc, score) # scores)))"

definition search :: "py_runtime \<Rightarrow> BM25Search \<Rightarrow> pystr \<Rightarrow> int \<Rightarrow> py_error + ranked list" where
  "search rt self query top_k =
     (if \<not> bm_indexed self then Inr []
      else
        (let query_tokens = tokenize rt query in
         if query_tokens = [] then Inr []
         else
           (case score_all self query_tokens 0 (bm_documents self) of
              Inl err \<Rightarrow> Inl err
            | Inr scores \<Rightarrow> Inr (py_take top_k (sort_desc (\<lambda>x. snd (snd x)) scores)))))"

text \<open>
  \<open>search_with_expansion\<close>: \<open>combined_scores\<close> keeps, per document id, the candidate id and
  score of the best entry seen so far; each variant is searched with \<open>top_k * 2\<close>.
\<close>

definition keep_max ::
  "(string \<times> string \<times> real) list \<Rightarrow> ranked \<Rightarrow> (string \<times> string \<times> real) list" where
  "keep_max combined_scores r =
     (case map_of combined_scores (fst r) of
        None \<Rightarrow> AList.update (fst r) (snd r) combined_scores
      | Some old \<Rightarrow>
          if snd (snd r) > snd old then AList.update (fst r) (snd r) combined_scores
          else combined_scores)"

fun expansion_loop ::
  "py_runtime \<Rightarrow> BM25Search \<Rightarrow> int \<Rightarrow> pystr list \<Rightarrow> (string \<times> string \<times> real) list
     \<Rightarrow> py_error + (string \<times> string \<times> real) list" where
  "expansion_loop rt self top_k [] combined_scores = Inr combined_scores"
| "expansion_loop rt self top_k (query # rest) combined_scores =
     (case search rt self query (top_k * 2) of
        Inl err \<Rightarrow> Inl err
      | Inr results \<Rightarrow> expansion_loop rt self top_k rest (foldl keep_max combined_scores results))"

definition search_with_expansion ::
  "py_runtime \<Rightarrow> BM25Search \<Rightarrow> pystr list \<Rightarrow> int \<Rightarrow> py_error + ranked list" where
  "search_with_expansion rt self queries top_k =
     (case expansion_loop rt self top_k queries [] of
        Inl err \<Rightarrow> Inl err
      | Inr combined_scores \<Rightarrow>
          Inr (py_take top_k (sort_desc (\<lambda>x. snd (snd x)) combined_scores)))"

text \<open>
  Notions used to state the properties: the document frequency of a term in a corpus, the
  usual ranges of the BM25 parameters (which keep every divisor positive), whether a document
  shares a token with a query, and the invariant of \<open>combined_scores\<close> with respect to the
  variant results seen so far.
\<close>

definition df_of :: "(pystr \<times> nat) list \<Rightarrow> pystr \<Rightarrow> nat" where
  "df_of dfs t = (case map_of dfs t of None \<Rightarrow> 0 | Some n \<Rightarrow> n)"

definition doc_frequency :: "py_runtime \<Rightarrow> BM25Document list \<Rightarrow> pystr \<Rightarrow> nat" where
  "doc_frequency rt docs t = length (filter (\<lambda>d. t \<in> set (tokenize rt (bd_content d))) docs)"

definition params_ok :: "BM25Search \<Rightarrow> bool" where
  "params_ok self = (0 \<le> bm_k1 self \<and> 0 \<le> bm_b self \<and> bm_b self \<le> 1)"

definition matches :: "py_runtime \<Rightarrow> pystr \<Rightarrow> BM25Document \<Rightarrow> bool" where
  "matches rt query d = (set (tokenize rt query) \<inter> set (tokenize rt (bd_content d)) \<noteq> {})"

definition max_inv :: "ranked list \<Rightarrow> ranked list \<Rightarrow> bool" where
  "max_inv combined seen \<longleftrightarrow>
     distinct (map fst combined) \<and>
     (\<forall>d. case map_of combined d of
             None \<Rightarrow> d \<notin> fst ` set seen
           | Some cs \<Rightarrow> (d, cs) \<in> set seen \<and> (\<forall>e\<in>set seen. fst e = d \<longrightarrow> snd (snd e) \<le> snd cs))"

text \<open>
  Two small documents for concrete evaluation.
\<close>

definition doc_a :: BM25Document where
  "doc_a = \<lparr>bd_id = ''d1'', bd_candidate_id = ''c1'', bd_content = lit ''Python, Java'',
            bd_tokens = [], bd_metadata = []\<rparr>"

definition doc_b :: BM25Document where
  "doc_b = \<lparr>bd_id = ''d2'', bd_candidate_id = ''c2'', bd_content = lit ''python'',
            bd_tokens = [], bd_metadata = []\<rparr>"


section \<open>Query expansion (app/services/search/query_expansion.py)\<close>

text \<open>
  The string methods \<open>strip\<close>, \<open>in\<close> and \<open>replace\<close>. \<open>replace\<close> substitutes the
  occurrences of \<open>old\<close> from left to right without overlap (\<open>skip\<close> counts the
  characters of a match still to be dropped); for an empty \<open>old\<close> it puts \<open>new\<close> around
  every character.
\<close>

definition py_strip :: "py_runtime \<Rightarrow> pystr \<Rightarrow> pystr" where
  "py_strip rt s = rev (dropWhile (is_space rt) (rev (dropWhile (is_space rt) s)))"

fun py_contains :: "pystr \<Rightarrow> pystr \<Rightarrow> bool" where
  "py_contains key [] = (key = [])"
| "py_contains key (c # cs) = (take (length key) (c # cs) = key \<or> py_contains key cs)"

fun replace_from :: "pystr \<Rightarrow> pystr \<Rightarrow> nat \<Rightarrow> pystr \<Rightarrow> pystr" where
  "replace_from old new skip [] = []"
| "replace_from old new skip (c # cs) =
     (if 0 < skip then replace_from old new (skip - 1) cs
      else if take (length old) (c # cs) = old
        then new @ replace_from old new (length old - 1) cs
      else c # replace_from old new 0 cs)"

definition py_replace :: "pystr \<Rightarrow> pystr \<Rightarrow> pystr \<Rightarrow> pystr" where
  "py_replace s old new =
     (if old = [] then new @ concat (map (\<lambda>c. c # new) s) else replace_from old new 0 s)"

text \<open>
  \<open>_fallback_expansion\<close>. The two dictionaries keep their insertion order; the Vietnamese
  replacements are written by their code points.
\<close>

definition title_mappings :: "(pystr \<times> pystr list) list" where
  "title_mappings =
     [(lit ''developer'',
         [lit ''engineer'', lit ''programmer'',
          lit ''l'' @ [7853] @ lit ''p tr'' @ [236] @ lit ''nh vi'' @ [234] @ lit ''n'']),
      (lit ''engineer'', [lit ''developer'', lit ''specialist'', lit ''k'' @ [7929] @ lit '' s'' @ [432]]),
      (lit ''manager'', [lit ''lead'', lit ''director'', lit ''qu'' @ [7843] @ lit ''n l'' @ [253]]),
      (lit ''senior'', [lit ''sr.'', lit ''experienced'']),
      (lit ''junior'', [lit ''jr.'', lit ''entry-level'', lit ''fresher''])]"

definition vn_mappings :: "(pystr \<times> pystr) list" where
  "vn_mappings =
     [(lit ''software'', lit ''ph'' @ [7847] @ lit ''n m'' @ [7873] @ lit ''m''),
      (lit ''developer'', lit ''l'' @ [7853] @ lit ''p tr'' @ [236] @ lit ''nh vi'' @ [234] @ lit ''n''),
      (lit ''engineer'', lit ''k'' @ [7929] @ lit '' s'' @ [432]),
      (lit ''manager'', lit ''qu'' @ [7843] @ lit ''n l'' @ [253]),
      (lit ''data'', lit ''d'' @ [7919] @ lit '' li'' @ [7879] @ lit ''u''),
      (lit ''web'', lit ''web''),
      (lit ''mobile'', lit ''di '' @ [273, 7897] @ lit ''ng'')]"

definition title_expansions :: "py_runtime \<Rightarrow> pystr \<Rightarrow> pystr list" where
  "title_expansions rt query_lower =
     concat (map (\<lambda>(key, expansions_list).
                    if py_contains key query_lower
                    then map (\<lambda>exp. str_title rt (py_replace query_lower key exp)) expansions_list
                    else [])
                 title_mappings)"

definition vn_translate :: "py_runtime \<Rightarrow> pystr \<Rightarrow> pystr" where
  "vn_translate rt query =
     foldl (\<lambda>vn_query (en, vn). py_replace (str_lower rt vn_query) en vn) query vn_mappings"

definition fallback_expansion :: "py_runtime \<Rightarrow> pystr \<Rightarrow> pystr list" where
  "fallback_expansion rt query =
     (let query_lower = str_lower rt query;
          expansions = title_expansions rt query_lower;
          vn_query = vn_translate rt query
      in if str_lower rt vn_query \<noteq> str_lower rt query
         then expansions @ [str_title rt vn_query] else expansions)"

text \<open>
  What the call of the language model does is outside the repository: there is no client
  (no API key, or the package is missing), the call raises, or it returns a list of strings.
  \<open>expand_query\<close> puts the original query first, adds the expansions of the model cut to
  \<open>max_expansions\<close> or else the fallback expansions, removes duplicates under lower-casing
  and stripping, and cuts the list to \<open>max_expansions + 1\<close>.
\<close>

datatype llm_outcome = NoClient | LlmFails | LlmReturns "pystr list"

fun unique_queries :: "py_runtime \<Rightarrow> pystr list \<Rightarrow> pystr list \<Rightarrow> pystr list" where
  "unique_queries rt seen [] = []"
| "unique_queries rt seen (q # rest) =
     (let q_lower = py_strip rt (str_lower rt q) in
      if q_lower \<in> set seen then unique_queries rt seen rest
      else py_strip rt q # unique_queries rt (q_lower # seen) rest)"

definition expand_query :: "py_runtime \<Rightarrow> llm_outcome \<Rightarrow> pystr \<Rightarrow> int \<Rightarrow> pystr list" where
  "expand_query rt llm query max_expansions =
     (let result = [query] @
            (case llm of
               LlmReturns expansions \<Rightarrow> py_take max_expansions expansions
             | LlmFails \<Rightarrow> fallback_expansion rt query
             | NoClient \<Rightarrow> fallback_expansion rt query);
          unique = unique_queries rt [] result
      in py_take (max_expansions + 1) unique)"

text \<open>
  Notions used to state the properties: lower-casing does not disturb stripping (true of
  Python's tables, where case mapping leaves whitespace alone), the keywords the fallback
  rules look for, and the key by which \<open>expand_query\<close> compares two queries.
\<close>

definition strip_lower_stable :: "py_runtime \<Rightarrow> bool" where
  "strip_lower_stable rt \<longleftrightarrow>
     (\<forall>s. py_strip rt (str_lower rt (py_strip rt s)) = py_strip rt (str_lower rt s))"

definition fallback_keys :: "pystr list" where
  "fallback_keys = map fst title_mappings @ map fst vn_mappings"

definition dedup_key :: "py_runtime \<Rightarrow> pystr \<Rightarrow> pystr" where
  "dedup_key rt q = py_strip rt (str_lower rt q)"

section \<open>Search requests and responses (app/schemas/search.py)\<close>




section \<open>Three-layer fallback of the chat chain (app/services/chat/rag_chain.py)\<close>


















section \<open>Result cache of the orchestrator (app/services/utils/cache.py, hybrid.py)\<close>










section \<open>Properties of the fusion engine\<close>

lemma contrib_sum:
  "contrib k r xs d = (\<Sum>i<length xs. if fst (xs ! i) = d then 1 / real_of_int (k + r + int i) else 0)"
proof (induction xs arbitrary: r)
  case Nil
  then show ?case by simp
next
  case (Cons x xs)
  have eq: "k + (r + 1) + int i = k + r + int (Suc i)" for i by simp
  show ?case
    unfolding contrib.simps Cons.IH eq
    by (simp add: sum.lessThan_Suc_shift del: sum.lessThan_Suc)
qed

lemma set_rank_score [simp]: "de_rrf_score (set_rank src r s e) = de_rrf_score e"
  by (cases src) (simp_all add: set_rank_def)

lemma set_rank_cand [simp]: "de_candidate_id (set_rank src r s e) = de_candidate_id e"
  by (cases src) (simp_all add: set_rank_def)

lemma rrf_pass_ok:
  assumes "\<forall>i<length xs. k + r + int i \<noteq> 0"
  shows "\<exists>dd'. rrf_pass src k r xs dd = Inr dd' \<and>
           fst ` set dd' = fst ` set dd \<union> fst ` set xs \<and>
           (distinct (map fst dd) \<longrightarrow> distinct (map fst dd')) \<and>
           (\<forall>d. score_of dd' d = score_of dd d + contrib k r xs d)"
  using assms
proof (induction xs arbitrary: r dd)
  case Nil
  then show ?case by simp
next
  case (Cons x xs)
  obtain d c s where x: "x = (d, c, s)" by (cases x) auto
  define e1 where "e1 = set_rank src r s (case map_of dd d of None \<Rightarrow> new_entry c | Some e \<Rightarrow> e)"
  define dd1 where "dd1 = AList.update d (e1\<lparr>de_rrf_score := de_rrf_score e1 + 1 / real_of_int (k + r)\<rparr>) dd"
  from Cons.prems have nz: "k + r \<noteq> 0" by fastforce
  have rest: "\<forall>i<length xs. k + (r + 1) + int i \<noteq> 0"
  proof (intro allI impI)
    fix i assume "i < length xs"
    then have "Suc i < length (x # xs)" by simp
    with Cons.prems have "k + r + int (Suc i) \<noteq> 0" by blast
    then show "k + (r + 1) + int i \<noteq> 0" by simp
  qed
  from Cons.IH[OF rest, of dd1] obtain dd' where
    run: "rrf_pass src k (r + 1) xs dd1 = Inr dd'" and
    keys: "fst ` set dd' = fst ` set dd1 \<union> fst ` set xs" and
    dist: "distinct (map fst dd1) \<longrightarrow> distinct (map fst dd')" and
    sc: "\<forall>d'. score_of dd' d' = score_of dd1 d' + contrib k (r + 1) xs d'"
    by blast
  have step: "rrf_pass src k r (x # xs) dd = Inr dd'"
    using run nz by (simp add: x dd1_def e1_def Let_def)
  have k1: "fst ` set dd1 = insert d (fst ` set dd)"
    by (simp add: dd1_def dom_update)
  have d1: "distinct (map fst dd) \<longrightarrow> distinct (map fst dd1)"
    by (simp add: dd1_def distinct_update)
  have s1: "score_of dd1 d' = score_of dd d' + (if d = d' then 1 / real_of_int (k + r) else 0)" for d'
    by (auto simp: score_of_def dd1_def update_conv' e1_def new_entry_def split: option.splits)
  show ?case
    using step keys dist sc k1 d1 s1 by (auto simp: x)
qed

lemma contrib_rank_sum: "contrib k 1 xs d = rank_sum k xs d"
  unfolding contrib_sum rank_sum_def
  by (rule sum.cong) (auto simp: add.assoc add.commute)

lemma rank_sum_absent: "d \<notin> fst ` set xs \<Longrightarrow> rank_sum k xs d = 0"
  unfolding rank_sum_def by (rule sum.neutral) (auto simp: image_iff dest: nth_mem)

lemma rank_sum_distinct:
  assumes "distinct (map fst xs)" "i < length xs"
  shows "rank_sum k xs (fst (xs ! i)) = 1 / real_of_int (k + int i + 1)"
proof -
  have eq: "fst (xs ! j) = fst (xs ! i) \<longleftrightarrow> j = i" if "j < length xs" for j
    using assms that by (metis length_map nth_eq_iff_index_eq nth_map)
  have "rank_sum k xs (fst (xs ! i)) =
          (\<Sum>j<length xs. if j = i then 1 / real_of_int (k + int j + 1) else 0)"
    unfolding rank_sum_def by (rule sum.cong) (auto simp: eq)
  also have "\<dots> = 1 / real_of_int (k + int i + 1)"
    using assms(2) by (simp add: sum.delta)
  finally show ?thesis .
qed

lemma mset_sort_desc: "mset (sort_desc f xs) = mset xs"
  by (simp add: sort_desc_def)

lemma set_sort_desc: "set (sort_desc f xs) = set xs"
  by (simp add: sort_desc_def)

lemma distinct_map_sort_desc: "distinct (map g (sort_desc f xs)) = distinct (map g xs)"
proof -
  have "mset (map g (sort_desc f xs)) = mset (map g xs)"
    by (simp add: mset_sort_desc)
  then show ?thesis by (rule mset_eq_imp_distinct_iff)
qed

lemma sorted_sort_desc: "sorted (map (\<lambda>x. - f x) (sort_desc f xs))"
  by (simp add: sort_desc_def)

lemma merge_characterisation:
  assumes "0 \<le> k \<or> k < - int (max (length A) (length B))"
  shows "\<exists>res. merge k A B = Inr res \<and>
           distinct (map doc_id res) \<and>
           doc_id ` set res = fst ` set A \<union> fst ` set B \<and>
           (\<forall>e\<in>set res. combined_score e = rank_sum k A (doc_id e) + rank_sum k B (doc_id e)) \<and>
           sorted (map (\<lambda>e. - combined_score e) res)"
proof -
  have nzA: "\<forall>i<length A. k + 1 + int i \<noteq> 0" using assms by auto
  have nzB: "\<forall>i<length B. k + 1 + int i \<noteq> 0" using assms by auto
  from rrf_pass_ok[OF nzA, of Keyword "[]"] obtain dd1 where
    p1: "rrf_pass Keyword k 1 A [] = Inr dd1" and
    k1: "fst ` set dd1 = fst ` set A" and
    d1: "distinct (map fst dd1)" and
    s1: "\<forall>d. score_of dd1 d = contrib k 1 A d"
    by (auto simp: score_of_def)
  from rrf_pass_ok[OF nzB, of Semantic dd1] obtain dd2 where
    p2: "rrf_pass Semantic k 1 B dd1 = Inr dd2" and
    k2: "fst ` set dd2 = fst ` set dd1 \<union> fst ` set B" and
    d2: "distinct (map fst dd2)" and
    s2: "\<forall>d. score_of dd2 d = score_of dd1 d + contrib k 1 B d"
    using d1 by blast
  let ?res = "sort_desc combined_score (map to_result dd2)"
  have run: "merge k A B = Inr ?res" by (simp add: merge_def p1 p2)
  have ids: "map doc_id (map to_result dd2) = map fst dd2"
    by (simp add: to_result_def)
  have dist: "distinct (map doc_id ?res)"
    using d2 by (simp add: distinct_map_sort_desc ids del: map_map)
  have keys: "doc_id ` set ?res = fst ` set A \<union> fst ` set B"
  proof -
    have "doc_id ` set ?res = fst ` set dd2"
      by (simp add: set_sort_desc image_image to_result_def)
    then show ?thesis using k1 k2 by simp
  qed
  have sc: "combined_score e = rank_sum k A (doc_id e) + rank_sum k B (doc_id e)"
    if "e \<in> set ?res" for e
  proof -
    from that obtain p where p: "p \<in> set dd2" "e = to_result p"
      by (auto simp: set_sort_desc)
    then have "map_of dd2 (fst p) = Some (snd p)" using d2 by simp
    then have "score_of dd2 (fst p) = de_rrf_score (snd p)" by (simp add: score_of_def)
    then show ?thesis using p s1 s2 by (simp add: to_result_def contrib_rank_sum)
  qed
  show ?thesis using run dist keys sc sorted_sort_desc[of combined_score] by blast
qed

text \<open>
  C1. For ranked lists, in which every document id occurs at most once, and a constant
  \<open>k\<close> for which no divisor \<open>k + rank\<close> is zero, \<open>merge\<close> returns exactly one entry for
  every document id of the union of the two lists and for no other id. The combined score
  of a document at rank \<open>r1\<close> of the keyword list and rank \<open>r2\<close> of the semantic list is
  \<open>1/(k + r1) + 1/(k + r2)\<close>; a document of one list only scores the single term of its rank
  there. Ranks are 1-based: position \<open>i\<close> of a list is rank \<open>i + 1\<close>.
\<close>

theorem merge_rrf_exact_and_complete:
  assumes k: "0 \<le> k \<or> k < - int (max (length A) (length B))"
      and dA: "distinct (map fst A)" and dB: "distinct (map fst B)"
  shows "\<exists>res. merge k A B = Inr res \<and>
           distinct (map doc_id res) \<and>
           doc_id ` set res = fst ` set A \<union> fst ` set B \<and>
           (\<forall>e\<in>set res.
              (\<forall>i<length A. \<forall>j<length B. fst (A ! i) = doc_id e \<and> fst (B ! j) = doc_id e \<longrightarrow>
                 combined_score e =
                   1 / real_of_int (k + int i + 1) + 1 / real_of_int (k + int j + 1)) \<and>
              (\<forall>i<length A. fst (A ! i) = doc_id e \<and> doc_id e \<notin> fst ` set B \<longrightarrow>
                 combined_score e = 1 / real_of_int (k + int i + 1)) \<and>
              (\<forall>j<length B. fst (B ! j) = doc_id e \<and> doc_id e \<notin> fst ` set A \<longrightarrow>
                 combined_score e = 1 / real_of_int (k + int j + 1)))"
proof -
  from merge_characterisation[OF k] obtain res where
    run: "merge k A B = Inr res" and dist: "distinct (map doc_id res)" and
    ids: "doc_id ` set res = fst ` set A \<union> fst ` set B" and
    sc: "\<forall>e\<in>set res. combined_score e = rank_sum k A (doc_id e) + rank_sum k B (doc_id e)"
    by blast
  have inA: "rank_sum k A d = 1 / real_of_int (k + int i + 1)"
    if "i < length A" "fst (A ! i) = d" for i d
    using rank_sum_distinct[OF dA that(1), of k] that(2) by simp
  have inB: "rank_sum k B d = 1 / real_of_int (k + int j + 1)"
    if "j < length B" "fst (B ! j) = d" for j d
    using rank_sum_distinct[OF dB that(1), of k] that(2) by simp
  have exact: "(\<forall>i<length A. \<forall>j<length B. fst (A ! i) = doc_id e \<and> fst (B ! j) = doc_id e \<longrightarrow>
                 combined_score e =
                   1 / real_of_int (k + int i + 1) + 1 / real_of_int (k + int j + 1)) \<and>
              (\<forall>i<length A. fst (A ! i) = doc_id e \<and> doc_id e \<notin> fst ` set B \<longrightarrow>
                 combined_score e = 1 / real_of_int (k + int i + 1)) \<and>
              (\<forall>j<length B. fst (B ! j) = doc_id e \<and> doc_id e \<notin> fst ` set A \<longrightarrow>
                 combined_score e = 1 / real_of_int (k + int j + 1))"
    if e: "e \<in> set res" for e
  proof -
    have s: "combined_score e = rank_sum k A (doc_id e) + rank_sum k B (doc_id e)"
      using sc e by blast
    have both: "combined_score e = 1 / real_of_int (k + int i + 1) + 1 / real_of_int (k + int j + 1)"
      if "i < length A" "j < length B" "fst (A ! i) = doc_id e" "fst (B ! j) = doc_id e" for i j
      using s inA[OF that(1,3)] inB[OF that(2,4)] by simp
    have onlyA: "combined_score e = 1 / real_of_int (k + int i + 1)"
      if "i < length A" "fst (A ! i) = doc_id e" "doc_id e \<notin> fst ` set B" for i
      using s inA[OF that(1,2)] rank_sum_absent[OF that(3), of k] by simp
    have onlyB: "combined_score e = 1 / real_of_int (k + int j + 1)"
      if "j < length B" "fst (B ! j) = doc_id e" "doc_id e \<notin> fst ` set A" for j
      using s inB[OF that(1,2)] rank_sum_absent[OF that(3), of k] by simp
    show ?thesis
    proof (intro conjI allI impI)
      fix i j assume "i < length A" "j < length B" "fst (A ! i) = doc_id e \<and> fst (B ! j) = doc_id e"
      then show "combined_score e = 1 / real_of_int (k + int i + 1) + 1 / real_of_int (k + int j + 1)"
        using both by blast
    next
      fix i assume "i < length A" "fst (A ! i) = doc_id e \<and> doc_id e \<notin> fst ` set B"
      then show "combined_score e = 1 / real_of_int (k + int i + 1)" using onlyA by blast
    next
      fix j assume "j < length B" "fst (B ! j) = doc_id e \<and> doc_id e \<notin> fst ` set A"
      then show "combined_score e = 1 / real_of_int (k + int j + 1)" using onlyB by blast
    qed
  qed
  show ?thesis
  proof (intro exI[of _ res] conjI)
    show "\<forall>e\<in>set res.
              (\<forall>i<length A. \<forall>j<length B. fst (A ! i) = doc_id e \<and> fst (B ! j) = doc_id e \<longrightarrow>
                 combined_score e =
                   1 / real_of_int (k + int i + 1) + 1 / real_of_int (k + int j + 1)) \<and>
              (\<forall>i<length A. fst (A ! i) = doc_id e \<and> doc_id e \<notin> fst ` set B \<longrightarrow>
                 combined_score e = 1 / real_of_int (k + int i + 1)) \<and>
              (\<forall>j<length B. fst (B ! j) = doc_id e \<and> doc_id e \<notin> fst ` set A \<longrightarrow>
                 combined_score e = 1 / real_of_int (k + int j + 1))"
      by (rule ballI) (erule exact)
  qed (fact run dist ids)+
qed

theorem merge_rrf_exact_and_complete_witness:
  "\<exists>res. merge 60 scenario_bm25 scenario_semantic = Inr res \<and>
           distinct (map doc_id res) \<and>
           doc_id ` set res = fst ` set scenario_bm25 \<union> fst ` set scenario_semantic \<and>
           (\<forall>e\<in>set res.
              (\<forall>i<length scenario_bm25. \<forall>j<length scenario_semantic.
                 fst (scenario_bm25 ! i) = doc_id e \<and> fst (scenario_semantic ! j) = doc_id e \<longrightarrow>
                 combined_score e =
                   1 / real_of_int (60 + int i + 1) + 1 / real_of_int (60 + int j + 1)) \<and>
              (\<forall>i<length scenario_bm25.
                 fst (scenario_bm25 ! i) = doc_id e \<and> doc_id e \<notin> fst ` set scenario_semantic \<longrightarrow>
                 combined_score e = 1 / real_of_int (60 + int i + 1)) \<and>
              (\<forall>j<length scenario_semantic.
                 fst (scenario_semantic ! j) = doc_id e \<and> doc_id e \<notin> fst ` set scenario_bm25 \<longrightarrow>
                 combined_score e = 1 / real_of_int (60 + int j + 1)))"
  by (rule merge_rrf_exact_and_complete) (simp_all add: scenario_bm25_def scenario_semantic_def)

section \<open>Properties of candidate-level aggregation\<close>

lemma aggregate_ok:
  "fst ` set (aggregate rs cs) = fst ` set cs \<union> candidate_id ` set rs \<and>
   (distinct (map fst cs) \<longrightarrow> distinct (map fst (aggregate rs cs))) \<and>
   (\<forall>c. total_of (aggregate rs cs) c = total_of cs c + sum_list (map combined_score (owned_by c rs)))"
proof (induction rs arbitrary: cs)
  case Nil
  then show ?case by (simp add: owned_by_def)
next
  case (Cons r rs)
  define cs1 where "cs1 = AList.update (candidate_id r)
          ((case map_of cs (candidate_id r) of None \<Rightarrow> 0 | Some s \<Rightarrow> s) + combined_score r) cs"
  have k1: "fst ` set cs1 = insert (candidate_id r) (fst ` set cs)"
    by (simp add: cs1_def dom_update)
  have d1: "distinct (map fst cs) \<longrightarrow> distinct (map fst cs1)"
    by (simp add: cs1_def distinct_update)
  have t1: "total_of cs1 c = total_of cs c + (if candidate_id r = c then combined_score r else 0)" for c
    by (auto simp: total_of_def cs1_def update_conv' split: option.splits)
  have step: "aggregate (r # rs) cs = aggregate rs cs1"
    by (simp add: cs1_def)
  show ?case
    unfolding step using Cons.IH[of cs1] k1 d1 t1 by (auto simp: owned_by_def)
qed

lemma group_ok:
  "fst ` set (group_by_candidate rs bc) = fst ` set bc \<union> candidate_id ` set rs \<and>
   (distinct (map fst bc) \<longrightarrow> distinct (map fst (group_by_candidate rs bc))) \<and>
   (\<forall>c. chunks_of (group_by_candidate rs bc) c = chunks_of bc c @ owned_by c rs)"
proof (induction rs arbitrary: bc)
  case Nil
  then show ?case by (simp add: owned_by_def)
next
  case (Cons r rs)
  define bc1 where "bc1 = AList.update (candidate_id r)
          ((case map_of bc (candidate_id r) of None \<Rightarrow> [] | Some l \<Rightarrow> l) @ [r]) bc"
  have k1: "fst ` set bc1 = insert (candidate_id r) (fst ` set bc)"
    by (simp add: bc1_def dom_update)
  have d1: "distinct (map fst bc) \<longrightarrow> distinct (map fst bc1)"
    by (simp add: bc1_def distinct_update)
  have t1: "chunks_of bc1 c = chunks_of bc c @ (if candidate_id r = c then [r] else [])" for c
    by (auto simp: chunks_of_def bc1_def update_conv' split: option.splits)
  have step: "group_by_candidate (r # rs) bc = group_by_candidate rs bc1"
    by (simp add: bc1_def)
  show ?case
    unfolding step using Cons.IH[of bc1] k1 d1 t1 by (auto simp: owned_by_def)
qed

lemma candidate_level_sum_aux:
  assumes "0 \<le> k \<or> k < - int (max (length A) (length B))"
  shows "\<exists>docs cands. merge k A B = Inr docs \<and> merge_candidate_level k A B = Inr cands \<and>
           distinct (map fst cands) \<and>
           fst ` set cands = candidate_id ` set docs \<and>
           (\<forall>p\<in>set cands. snd p = sum_list (map combined_score (owned_by (fst p) docs)))"
proof -
  from merge_characterisation[OF assms] obtain docs where m: "merge k A B = Inr docs" by blast
  let ?agg = "aggregate docs []"
  let ?cands = "sort_desc snd ?agg"
  have run: "merge_candidate_level k A B = Inr ?cands"
    by (simp add: merge_candidate_level_def m)
  from aggregate_ok[of docs "[]"] have
    keys: "fst ` set ?agg = candidate_id ` set docs" and
    dist: "distinct (map fst ?agg)" and
    tot: "\<forall>c. total_of ?agg c = sum_list (map combined_score (owned_by c docs))"
    by (auto simp: total_of_def)
  have "snd p = sum_list (map combined_score (owned_by (fst p) docs))" if "p \<in> set ?cands" for p
  proof -
    from that have "p \<in> set ?agg" by (simp add: set_sort_desc)
    then have "map_of ?agg (fst p) = Some (snd p)" using dist by simp
    then have "total_of ?agg (fst p) = snd p" by (simp add: total_of_def)
    then show ?thesis using tot by simp
  qed
  then show ?thesis
    using m run keys dist by (auto simp: distinct_map_sort_desc set_sort_desc)
qed

lemma build_sum_aux:
  "distinct (map sr_candidate_id (build_search_results rrf_results vector_raw)) \<and>
   sr_candidate_id ` set (build_search_results rrf_results vector_raw) = candidate_id ` set rrf_results \<and>
   (\<forall>r\<in>set (build_search_results rrf_results vector_raw).
      sr_combined_score r = sum_list (map combined_score (owned_by (sr_candidate_id r) rrf_results)))"
proof -
  let ?bc = "group_by_candidate rrf_results []"
  let ?lk = "vector_lookup vector_raw"
  from group_ok[of rrf_results "[]"] have
    keys: "fst ` set ?bc = candidate_id ` set rrf_results" and
    dist: "distinct (map fst ?bc)" and
    ch: "\<forall>c. chunks_of ?bc c = owned_by c rrf_results"
    by (auto simp: chunks_of_def)
  have ids: "map sr_candidate_id (map (candidate_result ?lk) ?bc) = map fst ?bc"
    by (simp add: candidate_result_def Let_def)
  have a: "distinct (map sr_candidate_id (build_search_results rrf_results vector_raw))"
    unfolding build_search_results_def distinct_map_sort_desc ids using dist .
  have b: "sr_candidate_id ` set (build_search_results rrf_results vector_raw) = candidate_id ` set rrf_results"
    unfolding build_search_results_def set_sort_desc
    using keys by (simp add: image_image candidate_result_def Let_def)
  have c: "sr_combined_score r = sum_list (map combined_score (owned_by (sr_candidate_id r) rrf_results))"
    if "r \<in> set (build_search_results rrf_results vector_raw)" for r
  proof -
    from that obtain p where p: "p \<in> set ?bc" "r = candidate_result ?lk p"
      by (auto simp: build_search_results_def set_sort_desc)
    then have "map_of ?bc (fst p) = Some (snd p)" using dist by simp
    then have "chunks_of ?bc (fst p) = snd p" by (simp add: chunks_of_def)
    then have "snd p = owned_by (fst p) rrf_results" using ch by simp
    then show ?thesis using p by (simp add: candidate_result_def Let_def)
  qed
  show ?thesis using a b c by blast
qed

text \<open>
  C2. Whenever document-level fusion returns, \<open>merge_candidate_level\<close> returns one pair
  per candidate of the fused entries, and the orchestrator's \<open>_build_search_results\<close>
  one result per candidate; in both the candidate's combined score is the sum of the
  combined scores of the fused entries owned by that candidate.
\<close>

theorem candidate_aggregate_sum_law:
  assumes "0 \<le> k \<or> k < - int (max (length A) (length B))"
  shows "\<exists>docs cands. merge k A B = Inr docs \<and> merge_candidate_level k A B = Inr cands \<and>
           distinct (map fst cands) \<and>
           fst ` set cands = candidate_id ` set docs \<and>
           (\<forall>p\<in>set cands. snd p = sum_list (map combined_score (owned_by (fst p) docs))) \<and>
           distinct (map sr_candidate_id (build_search_results docs vector_raw)) \<and>
           sr_candidate_id ` set (build_search_results docs vector_raw) = candidate_id ` set docs \<and>
           (\<forall>r\<in>set (build_search_results docs vector_raw).
              sr_combined_score r = sum_list (map combined_score (owned_by (sr_candidate_id r) docs)))"
proof -
  from candidate_level_sum_aux[OF assms] obtain docs cands where
    a: "merge k A B = Inr docs" "merge_candidate_level k A B = Inr cands"
       "distinct (map fst cands)" "fst ` set cands = candidate_id ` set docs"
       "\<forall>p\<in>set cands. snd p = sum_list (map combined_score (owned_by (fst p) docs))"
    by blast
  note b = build_sum_aux[of docs vector_raw]
  show ?thesis
    by (intro exI[of _ docs] exI[of _ cands] conjI)
       (fact a b[THEN conjunct1] b[THEN conjunct2, THEN conjunct1]
             b[THEN conjunct2, THEN conjunct2])+
qed

theorem candidate_aggregate_sum_law_witness:
  "\<exists>docs cands. merge 60 scenario_bm25 scenario_semantic = Inr docs \<and>
           merge_candidate_level 60 scenario_bm25 scenario_semantic = Inr cands \<and>
           distinct (map fst cands) \<and>
           fst ` set cands = candidate_id ` set docs \<and>
           (\<forall>p\<in>set cands. snd p = sum_list (map combined_score (owned_by (fst p) docs))) \<and>
           distinct (map sr_candidate_id (build_search_results docs [])) \<and>
           sr_candidate_id ` set (build_search_results docs []) = candidate_id ` set docs \<and>
           (\<forall>r\<in>set (build_search_results docs []).
              sr_combined_score r = sum_list (map combined_score (owned_by (sr_candidate_id r) docs)))"
  by (rule candidate_aggregate_sum_law) simp

section \<open>Properties of the BM25 index\<close>

lemma map_of_bump_freq:
  "map_of (bump_freq x dfs) t = (if t = x then Some (df_of dfs x + 1) else map_of dfs t)"
  by (simp add: bump_freq_def update_conv' df_of_def)

lemma map_of_fold_bump:
  "distinct ts \<Longrightarrow>
   map_of (fold bump_freq ts dfs) t = (if t \<in> set ts then Some (df_of dfs t + 1) else map_of dfs t)"
proof (induction ts arbitrary: dfs)
  case Nil
  then show ?case by simp
next
  case (Cons x xs)
  have "df_of (bump_freq x dfs) t = df_of dfs t" if "t \<noteq> x"
    using that by (simp add: df_of_def map_of_bump_freq)
  with Cons show ?case by (auto simp: map_of_bump_freq)
qed

lemma map_of_count_doc_freqs:
  assumes "\<forall>t n. map_of dfs t = Some n \<longrightarrow> 0 < n"
  shows "map_of (count_doc_freqs docs dfs) t =
           (if df_of dfs t + length (filter (\<lambda>d. t \<in> set (bd_tokens d)) docs) = 0 then None
            else Some (df_of dfs t + length (filter (\<lambda>d. t \<in> set (bd_tokens d)) docs)))"
  using assms
proof (induction docs arbitrary: dfs)
  case Nil
  then show ?case by (auto simp: df_of_def split: option.splits)
next
  case (Cons d ds)
  let ?dfs1 = "fold bump_freq (remdups (bd_tokens d)) dfs"
  have m: "map_of ?dfs1 u = (if u \<in> set (bd_tokens d) then Some (df_of dfs u + 1) else map_of dfs u)" for u
    using map_of_fold_bump[of "remdups (bd_tokens d)" dfs u] by simp
  have pos: "\<forall>u n. map_of ?dfs1 u = Some n \<longrightarrow> 0 < n"
    using Cons.prems by (auto simp: m)
  have d1: "df_of ?dfs1 t = df_of dfs t + (if t \<in> set (bd_tokens d) then 1 else 0)"
    by (simp add: df_of_def m)
  show ?case
    using Cons.IH[OF pos] by (simp add: d1)
qed

lemma idf_arg: "(real n - real df + 5 / 10) / (real df + 5 / 10) + 1 = (real n + 1) / (real df + 5 / 10)"
  by (simp add: field_simps)

lemma idf_value_pos: "df \<le> n \<Longrightarrow> 0 < idf_value eps n df"
proof -
  assume "df \<le> n"
  then have "1 < (real n + 1) / (real df + 5 / 10)" by (simp add: field_simps)
  then have "0 < ln ((real n + 1) / (real df + 5 / 10))" by (rule ln_gt_zero)
  then show ?thesis unfolding idf_value_def idf_arg by (rule less_max_iff_disj[THEN iffD2, OF disjI1])
qed

lemma idf_value_floor: "eps \<le> idf_value eps n df"
  by (simp add: idf_value_def)

lemma idf_value_antimono:
  assumes "df1 \<le> df2"
  shows "idf_value eps n df2 \<le> idf_value eps n df1"
proof -
  have "(real n + 1) / (real df2 + 5 / 10) \<le> (real n + 1) / (real df1 + 5 / 10)"
    using assms by (intro divide_left_mono) (auto simp: add_pos_nonneg)
  moreover have "0 < (real n + 1) / (real df2 + 5 / 10)" by (simp add: add_pos_nonneg)
  ultimately have "ln ((real n + 1) / (real df2 + 5 / 10)) \<le> ln ((real n + 1) / (real df1 + 5 / 10))"
    by (rule ln_mono)
  then show ?thesis unfolding idf_value_def idf_arg by linarith
qed

lemma doc_frequency_le: "doc_frequency rt docs t \<le> length docs"
  by (simp add: doc_frequency_def)

lemma index_doc_freqs:
  "map_of (bm_doc_freqs (index_documents rt self docs)) t =
     (if doc_frequency rt docs t = 0 then None else Some (doc_frequency rt docs t))"
proof -
  have "map_of (count_doc_freqs (map (\<lambda>doc. doc\<lparr>bd_tokens := tokenize rt (bd_content doc)\<rparr>) docs) []) t =
     (if doc_frequency rt docs t = 0 then None else Some (doc_frequency rt docs t))"
    by (subst map_of_count_doc_freqs) (simp_all add: df_of_def doc_frequency_def filter_map comp_def)
  then show ?thesis by (simp add: index_documents_def Let_def)
qed

lemma map_of_map_snd: "map_of (map (\<lambda>p. (fst p, f (snd p))) xs) t = map_option f (map_of xs t)"
  by (induction xs) auto

lemma index_idf:
  "map_of (bm_idf (index_documents rt self docs)) t =
     (if doc_frequency rt docs t = 0 then None
      else Some (idf_value (bm_epsilon self) (length docs) (doc_frequency rt docs t)))"
proof -
  have "map_of (bm_idf (index_documents rt self docs)) t =
          map_option (idf_value (bm_epsilon self) (length docs))
            (map_of (bm_doc_freqs (index_documents rt self docs)) t)"
    by (simp add: index_documents_def Let_def map_of_map_snd)
  then show ?thesis by (simp add: index_doc_freqs)
qed

text \<open>
  C7. After \<open>index_documents\<close> on any documents, the indexed terms are exactly the terms
  with a positive document frequency; each has
  \<open>idf(t) = max(ln((N - df(t) + 0.5)/(df(t) + 0.5) + 1), epsilon)\<close>, which is at least
  \<open>epsilon\<close> and strictly positive; of two indexed terms the one with the lower document
  frequency has the greater or equal IDF; and \<open>epsilon\<close> defaults to 0.25.
\<close>

theorem idf_formula_floor_monotone:
  assumes "idx = index_documents rt self docs"
  shows "(\<forall>t. map_of (bm_doc_freqs idx) t =
               (if doc_frequency rt docs t = 0 then None else Some (doc_frequency rt docs t))) \<and>
         (\<forall>t. map_of (bm_idf idx) t =
               (if doc_frequency rt docs t = 0 then None
                else Some (max (ln ((real (length docs) - real (doc_frequency rt docs t) + 5 / 10)
                                     / (real (doc_frequency rt docs t) + 5 / 10) + 1))
                               (bm_epsilon self)))) \<and>
         (\<forall>t v. map_of (bm_idf idx) t = Some v \<longrightarrow> bm_epsilon self \<le> v \<and> 0 < v) \<and>
         (\<forall>t1 t2 v1 v2. map_of (bm_idf idx) t1 = Some v1 \<and> map_of (bm_idf idx) t2 = Some v2 \<and>
               doc_frequency rt docs t1 \<le> doc_frequency rt docs t2 \<longrightarrow> v2 \<le> v1) \<and>
         bm_epsilon default_bm25 = 25 / 100"
proof -
  have a: "\<forall>t. map_of (bm_doc_freqs idx) t =
               (if doc_frequency rt docs t = 0 then None else Some (doc_frequency rt docs t))"
    by (simp add: assms index_doc_freqs)
  have b: "\<forall>t. map_of (bm_idf idx) t =
               (if doc_frequency rt docs t = 0 then None
                else Some (max (ln ((real (length docs) - real (doc_frequency rt docs t) + 5 / 10)
                                     / (real (doc_frequency rt docs t) + 5 / 10) + 1))
                               (bm_epsilon self)))"
    by (simp add: assms index_idf idf_value_def)
  have c: "\<forall>t v. map_of (bm_idf idx) t = Some v \<longrightarrow> bm_epsilon self \<le> v \<and> 0 < v"
    unfolding assms index_idf
    using idf_value_floor idf_value_pos[OF doc_frequency_le] by (auto split: if_splits)
  have d: "\<forall>t1 t2 v1 v2. map_of (bm_idf idx) t1 = Some v1 \<and> map_of (bm_idf idx) t2 = Some v2 \<and>
               doc_frequency rt docs t1 \<le> doc_frequency rt docs t2 \<longrightarrow> v2 \<le> v1"
    unfolding assms index_idf using idf_value_antimono by (auto split: if_splits)
  have e: "bm_epsilon default_bm25 = 25 / 100"
    by (simp add: default_bm25_def new_bm25_def)
  from a b c d e show ?thesis by (intro conjI)
qed

lemma score_tokens_ok:
  assumes "params_ok self" and "bd_tokens doc \<noteq> [] \<longrightarrow> 0 < bm_avgdl self"
  shows "\<exists>s. score_tokens self doc doc_len qts acc = Inr s \<and>
              (set qts \<inter> set (bd_tokens doc) = {} \<longrightarrow> s = acc)"
proof (induction qts arbitrary: acc)
  case Nil
  then show ?case by simp
next
  case (Cons t ts)
  show ?case
  proof (cases "map_of (bm_idf self) t")
    case None
    then show ?thesis using Cons.IH[of acc] by (auto simp: count_list_0_iff)
  next
    case (Some v)
    show ?thesis
    proof (cases "count_list (bd_tokens doc) t = 0")
      case True
      then have "t \<notin> set (bd_tokens doc)" by (simp add: count_list_0_iff)
      then show ?thesis using Some True Cons.IH[of acc] by auto
    next
      case False
      then have mem: "t \<in> set (bd_tokens doc)" by (simp add: count_list_0_iff)
      then have av: "0 < bm_avgdl self" using assms(2) by auto
      have f: "0 < real (count_list (bd_tokens doc) t)" using False by simp
      have "0 \<le> bm_k1 self * (1 - bm_b self + bm_b self * (real doc_len / bm_avgdl self))"
        using assms(1) av by (auto simp: params_ok_def intro!: mult_nonneg_nonneg add_nonneg_nonneg)
      with f have den: "real (count_list (bd_tokens doc) t) +
          bm_k1 self * (1 - bm_b self + bm_b self * (real doc_len / bm_avgdl self)) \<noteq> 0"
        by linarith
      from Cons.IH obtain s where
        "score_tokens self doc doc_len ts
            (acc + v * (real (count_list (bd_tokens doc) t) * (bm_k1 self + 1) /
               (real (count_list (bd_tokens doc) t) +
                  bm_k1 self * (1 - bm_b self + bm_b self * (real doc_len / bm_avgdl self))))) = Inr s"
        by blast
      then show ?thesis using Some False av den mem by (auto simp: Let_def)
    qed
  qed
qed

lemma score_all_ok:
  assumes "params_ok self"
      and "\<forall>d\<in>set ds. bd_tokens d \<noteq> [] \<longrightarrow> 0 < bm_avgdl self"
      and "i + length ds \<le> length (bm_doc_lengths self)"
  shows "\<exists>scores. score_all self qts i ds = Inr scores \<and> length scores = length ds \<and>
           (\<forall>j<length ds. fst (scores ! j) = bd_id (ds ! j) \<and>
                fst (snd (scores ! j)) = bd_candidate_id (ds ! j) \<and>
                (set qts \<inter> set (bd_tokens (ds ! j)) = {} \<longrightarrow> snd (snd (scores ! j)) = 0))"
  using assms(2,3)
proof (induction ds arbitrary: i)
  case Nil
  then show ?case by simp
next
  case (Cons d ds)
  have i: "i < length (bm_doc_lengths self)" using Cons.prems(2) by simp
  from Cons.prems(1) have av: "bd_tokens d \<noteq> [] \<longrightarrow> 0 < bm_avgdl self" by simp
  from score_tokens_ok[OF assms(1) av, of "bm_doc_lengths self ! i" qts 0] obtain s where
    s: "score_document self d qts i = Inr s" "set qts \<inter> set (bd_tokens d) = {} \<longrightarrow> s = 0"
    using i by (auto simp: score_document_def)
  from Cons.IH[of "i + 1"] Cons.prems obtain scores where
    r: "score_all self qts (i + 1) ds = Inr scores" "length scores = length ds"
       "\<forall>j<length ds. fst (scores ! j) = bd_id (ds ! j) \<and>
                fst (snd (scores ! j)) = bd_candidate_id (ds ! j) \<and>
                (set qts \<inter> set (bd_tokens (ds ! j)) = {} \<longrightarrow> snd (snd (scores ! j)) = 0)"
    by auto
  have run: "score_all self qts i (d # ds) = Inr ((bd_id d, bd_candidate_id d, s) # scores)"
    using s(1) r(1) by simp
  have "fst (((bd_id d, bd_candidate_id d, s) # scores) ! j) = bd_id ((d # ds) ! j) \<and>
        fst (snd (((bd_id d, bd_candidate_id d, s) # scores) ! j)) = bd_candidate_id ((d # ds) ! j) \<and>
        (set qts \<inter> set (bd_tokens ((d # ds) ! j)) = {} \<longrightarrow>
           snd (snd (((bd_id d, bd_candidate_id d, s) # scores) ! j)) = 0)"
    if "j < length (d # ds)" for j
    using that s(2) r(3) by (cases j) auto
  then show ?case using run r(2) by auto
qed

lemma index_avgdl_pos:
  assumes "d \<in> set (bm_documents (index_documents rt self docs))" "bd_tokens d \<noteq> []"
  shows "0 < bm_avgdl (index_documents rt self docs)"
proof -
  let ?docs = "map (\<lambda>doc. doc\<lparr>bd_tokens := tokenize rt (bd_content doc)\<rparr>) docs"
  from assms have d: "d \<in> set ?docs" by (simp add: index_documents_def Let_def)
  then have ne: "docs \<noteq> []" by auto
  have "length (bd_tokens d) \<in> set (map (\<lambda>doc. length (bd_tokens doc)) ?docs)"
    using d by force
  then have "length (bd_tokens d) \<le> sum_list (map (\<lambda>doc. length (bd_tokens doc)) ?docs)"
    by (simp add: member_le_sum_list)
  moreover have "0 < length (bd_tokens d)" using assms(2) by simp
  ultimately have "0 < sum_list (map (\<lambda>doc. length (bd_tokens doc)) ?docs)" by linarith
  then show ?thesis using ne by (simp add: index_documents_def Let_def comp_def)
qed

lemma length_py_take: "0 \<le> n \<Longrightarrow> length (py_take n xs) = min (nat n) (length xs)"
  by (simp add: py_take_def)

lemma length_sort_desc: "length (sort_desc f xs) = length xs"
  by (simp add: sort_desc_def)

lemma search_scores_all:
  assumes "params_ok self" and "tokenize rt query \<noteq> []"
  shows "\<exists>scores. length scores = length docs \<and>
           (\<forall>j<length docs. fst (scores ! j) = bd_id (docs ! j) \<and>
                fst (snd (scores ! j)) = bd_candidate_id (docs ! j) \<and>
                (\<not> matches rt query (docs ! j) \<longrightarrow> snd (snd (scores ! j)) = 0)) \<and>
           search rt (index_documents rt self docs) query top_k =
             Inr (py_take top_k (sort_desc (\<lambda>x. snd (snd x)) scores))"
proof -
  let ?idx = "index_documents rt self docs"
  let ?docs = "map (\<lambda>doc. doc\<lparr>bd_tokens := tokenize rt (bd_content doc)\<rparr>) docs"
  have docs: "bm_documents ?idx = ?docs" by (simp add: index_documents_def Let_def)
  have p: "params_ok ?idx" using assms(1) by (simp add: params_ok_def index_documents_def Let_def)
  have av: "\<forall>d\<in>set (bm_documents ?idx). bd_tokens d \<noteq> [] \<longrightarrow> 0 < bm_avgdl ?idx"
    using index_avgdl_pos by blast
  have len: "0 + length (bm_documents ?idx) \<le> length (bm_doc_lengths ?idx)"
    by (simp add: index_documents_def Let_def)
  from score_all_ok[OF p av len, of "tokenize rt query"] obtain scores where
    r: "score_all ?idx (tokenize rt query) 0 (bm_documents ?idx) = Inr scores"
       "length scores = length (bm_documents ?idx)"
       "\<forall>j<length (bm_documents ?idx). fst (scores ! j) = bd_id (bm_documents ?idx ! j) \<and>
                fst (snd (scores ! j)) = bd_candidate_id (bm_documents ?idx ! j) \<and>
                (set (tokenize rt query) \<inter> set (bd_tokens (bm_documents ?idx ! j)) = {} \<longrightarrow>
                   snd (snd (scores ! j)) = 0)"
    by blast
  have ind: "bm_indexed ?idx" by (simp add: index_documents_def Let_def)
  have run: "search rt ?idx query top_k = Inr (py_take top_k (sort_desc (\<lambda>x. snd (snd x)) scores))"
    using r(1) ind assms(2) by (simp add: search_def Let_def)
  have l: "length scores = length docs" using r(2) docs by simp
  have "fst (scores ! j) = bd_id (docs ! j) \<and>
                fst (snd (scores ! j)) = bd_candidate_id (docs ! j) \<and>
                (\<not> matches rt query (docs ! j) \<longrightarrow> snd (snd (scores ! j)) = 0)"
    if "j < length docs" for j
    using r(3)[rule_format, of j] that unfolding docs matches_def by simp
  with l run show ?thesis by blast
qed

lemma filter_length_le:
  assumes "length xs = length ys" "\<forall>j<length xs. P (xs ! j) \<longrightarrow> Q (ys ! j)"
  shows "length (filter P xs) \<le> length (filter Q ys)"
  using assms
proof (induction xs ys rule: list_induct2)
  case Nil
  then show ?case by simp
next
  case (Cons x xs y ys)
  have "\<forall>j<length xs. P (xs ! j) \<longrightarrow> Q (ys ! j)"
    using Cons.prems by (metis Suc_less_eq length_Cons nth_Cons_Suc)
  then have ih: "length (filter P xs) \<le> length (filter Q ys)" by (rule Cons.IH)
  have "P x \<longrightarrow> Q y" using Cons.prems by (metis length_Cons nth_Cons_0 zero_less_Suc)
  with ih show ?case by auto
qed

lemma length_filter_sort_desc: "length (filter P (sort_desc f xs)) = length (filter P xs)"
proof -
  have "mset (filter P (sort_desc f xs)) = mset (filter P xs)"
    by (simp add: mset_sort_desc)
  then show ?thesis by (metis size_mset)
qed

lemma length_filter_take: "length (filter P (take n xs)) \<le> length (filter P xs)"
proof -
  have "length (filter P xs) = length (filter P (take n xs)) + length (filter P (drop n xs))"
    by (metis append_take_drop_id filter_append length_append)
  then show ?thesis by simp
qed

text \<open>
  C9. On a built index with parameters in their usual ranges and a query with at least one
  token, \<open>search\<close> scores every indexed document, in order, a document sharing no token
  with the query getting score 0; it returns the first \<open>top_k\<close> of them by descending
  score, so for \<open>top_k \<ge> 0\<close> the result has length \<open>min(top_k, corpus size)\<close> and holds a
  zero-score document whenever fewer documents match than it has entries.
\<close>

theorem search_scores_every_document:
  assumes "params_ok self" and "tokenize rt query \<noteq> []"
  shows "\<exists>scores. length scores = length docs \<and>
           (\<forall>j<length docs. fst (scores ! j) = bd_id (docs ! j) \<and>
                fst (snd (scores ! j)) = bd_candidate_id (docs ! j) \<and>
                (\<not> matches rt query (docs ! j) \<longrightarrow> snd (snd (scores ! j)) = 0)) \<and>
           search rt (index_documents rt self docs) query top_k =
             Inr (py_take top_k (sort_desc (\<lambda>x. snd (snd x)) scores)) \<and>
           (0 \<le> top_k \<longrightarrow>
              length (py_take top_k (sort_desc (\<lambda>x. snd (snd x)) scores)) =
                min (nat top_k) (length docs)) \<and>
           (0 \<le> top_k \<and> length (filter (matches rt query) docs) < min (nat top_k) (length docs) \<longrightarrow>
              (\<exists>e\<in>set (py_take top_k (sort_desc (\<lambda>x. snd (snd x)) scores)). snd (snd e) = 0))"
proof -
  from search_scores_all[OF assms, of docs top_k] obtain scores where
    l: "length scores = length docs" and
    p: "\<forall>j<length docs. fst (scores ! j) = bd_id (docs ! j) \<and>
                fst (snd (scores ! j)) = bd_candidate_id (docs ! j) \<and>
                (\<not> matches rt query (docs ! j) \<longrightarrow> snd (snd (scores ! j)) = 0)" and
    run: "search rt (index_documents rt self docs) query top_k =
             Inr (py_take top_k (sort_desc (\<lambda>x. snd (snd x)) scores))"
    by blast
  let ?res = "py_take top_k (sort_desc (\<lambda>x. snd (snd x)) scores)"
  let ?nz = "\<lambda>e::ranked. snd (snd e) \<noteq> 0"
  have len: "0 \<le> top_k \<longrightarrow> length ?res = min (nat top_k) (length docs)"
    by (simp add: length_py_take length_sort_desc l)
  have zero: "\<exists>e\<in>set ?res. snd (snd e) = 0"
    if t: "0 \<le> top_k" and few: "length (filter (matches rt query) docs) < min (nat top_k) (length docs)"
  proof (rule ccontr)
    assume "\<not> (\<exists>e\<in>set ?res. snd (snd e) = 0)"
    then have "filter ?nz ?res = ?res" by (simp add: filter_id_conv)
    then have "length ?res = length (filter ?nz ?res)" by simp
    also have "\<dots> \<le> length (filter ?nz (sort_desc (\<lambda>x. snd (snd x)) scores))"
      using t by (simp add: py_take_def length_filter_take)
    also have "\<dots> = length (filter ?nz scores)" by (rule length_filter_sort_desc)
    also have "\<dots> \<le> length (filter (matches rt query) docs)"
      by (rule filter_length_le) (use l p in auto)
    finally show False using few len t by simp
  qed
  from l p run len zero show ?thesis by blast
qed

lemma max_inv_empty: "max_inv [] []"
  by (simp add: max_inv_def)

lemma keep_max_inv:
  assumes "max_inv combined seen"
  shows "max_inv (keep_max combined r) (seen @ [r])"
proof -
  obtain d cs where r: "r = (d, cs)" by (cases r)
  from assms have dist: "distinct (map fst combined)" and
    inv: "\<And>d'. case map_of combined d' of
             None \<Rightarrow> d' \<notin> fst ` set seen
           | Some cs' \<Rightarrow> (d', cs') \<in> set seen \<and> (\<forall>e\<in>set seen. fst e = d' \<longrightarrow> snd (snd e) \<le> snd cs')"
    by (auto simp: max_inv_def)
  show ?thesis
  proof (cases "map_of combined d")
    case None
    then have k: "keep_max combined r = AList.update d cs combined"
      by (simp add: keep_max_def r)
    have nd: "d \<notin> fst ` set seen" using inv[of d] None by simp
    show ?thesis
      unfolding max_inv_def k
    proof (intro conjI allI)
      show "distinct (map fst (AList.update d cs combined))"
        using dist by (rule distinct_update)
      fix d'
      show "case map_of (AList.update d cs combined) d' of
             None \<Rightarrow> d' \<notin> fst ` set (seen @ [r])
           | Some cs' \<Rightarrow> (d', cs') \<in> set (seen @ [r]) \<and>
               (\<forall>e\<in>set (seen @ [r]). fst e = d' \<longrightarrow> snd (snd e) \<le> snd cs')"
        using inv[of d'] nd by (force simp: update_conv' r split: option.splits)
    qed
  next
    case (Some old)
    have o: "(d, old) \<in> set seen" "\<forall>e\<in>set seen. fst e = d \<longrightarrow> snd (snd e) \<le> snd old"
      using inv[of d] Some by auto
    show ?thesis
    proof (cases "snd cs > snd old")
      case True
      then have k: "keep_max combined r = AList.update d cs combined"
        by (simp add: keep_max_def r Some)
      show ?thesis
        unfolding max_inv_def k
      proof (intro conjI allI)
        show "distinct (map fst (AList.update d cs combined))"
          using dist by (rule distinct_update)
        fix d'
        show "case map_of (AList.update d cs combined) d' of
               None \<Rightarrow> d' \<notin> fst ` set (seen @ [r])
             | Some cs' \<Rightarrow> (d', cs') \<in> set (seen @ [r]) \<and>
                 (\<forall>e\<in>set (seen @ [r]). fst e = d' \<longrightarrow> snd (snd e) \<le> snd cs')"
          using inv[of d'] o True by (force simp: update_conv' r split: option.splits)
      qed
    next
      case False
      then have k: "keep_max combined r = combined"
        by (simp add: keep_max_def r Some)
      show ?thesis
        unfolding max_inv_def k
      proof (intro conjI allI)
        show "distinct (map fst combined)" by (rule dist)
        fix d'
        show "case map_of combined d' of
               None \<Rightarrow> d' \<notin> fst ` set (seen @ [r])
             | Some cs' \<Rightarrow> (d', cs') \<in> set (seen @ [r]) \<and>
                 (\<forall>e\<in>set (seen @ [r]). fst e = d' \<longrightarrow> snd (snd e) \<le> snd cs')"
          using inv[of d'] o False Some by (force simp: r split: option.splits)
      qed
    qed
  qed
qed

lemma foldl_keep_max_inv:
  "max_inv combined seen \<Longrightarrow> max_inv (foldl keep_max combined rs) (seen @ rs)"
proof (induction rs arbitrary: combined seen)
  case Nil
  then show ?case by simp
next
  case (Cons r rs)
  from keep_max_inv[OF Cons.prems, of r] have "max_inv (keep_max combined r) (seen @ [r])" .
  from Cons.IH[OF this] show ?case by simp
qed

lemma expansion_loop_ok:
  assumes "list_all2 (\<lambda>q r. search rt self q (top_k * 2) = Inr r) qs rs"
      and "max_inv combined seen"
  shows "\<exists>c. expansion_loop rt self top_k qs combined = Inr c \<and> max_inv c (seen @ concat rs)"
  using assms
proof (induction qs rs arbitrary: combined seen rule: list_all2_induct)
  case Nil
  then show ?case by simp
next
  case (Cons q qs r rs)
  from foldl_keep_max_inv[OF Cons.prems] have "max_inv (foldl keep_max combined r) (seen @ r)" .
  from Cons.IH[OF this] Cons.hyps(1) show ?case by simp
qed

lemma search_returns:
  assumes "params_ok self"
  shows "\<exists>r. search rt (index_documents rt self docs) q k = Inr r"
proof (cases "tokenize rt q = []")
  case True
  then show ?thesis by (simp add: search_def)
next
  case False
  from search_scores_all[OF assms False, of docs k] show ?thesis by blast
qed

lemma searches_return:
  assumes "params_ok self"
  shows "\<exists>rs. list_all2 (\<lambda>q r. search rt (index_documents rt self docs) q k = Inr r) qs rs"
proof (induction qs)
  case Nil
  then show ?case by simp
next
  case (Cons q qs)
  then obtain rs where "list_all2 (\<lambda>q r. search rt (index_documents rt self docs) q k = Inr r) qs rs"
    by blast
  moreover from search_returns[OF assms, of rt docs q k] obtain r where
    "search rt (index_documents rt self docs) q k = Inr r" by blast
  ultimately have "list_all2 (\<lambda>q r. search rt (index_documents rt self docs) q k = Inr r) (q # qs) (r # rs)"
    by simp
  then show ?case by blast
qed

lemma max_inv_sets:
  assumes "max_inv combined seen"
  shows "distinct (map fst combined)"
    and "fst ` set combined = fst ` set seen"
    and "\<forall>e\<in>set combined. e \<in> set seen \<and> (\<forall>e'\<in>set seen. fst e' = fst e \<longrightarrow> snd (snd e') \<le> snd (snd e))"
proof -
  from assms have dist: "distinct (map fst combined)" and
    inv: "\<And>d'. case map_of combined d' of
             None \<Rightarrow> d' \<notin> fst ` set seen
           | Some cs' \<Rightarrow> (d', cs') \<in> set seen \<and> (\<forall>e\<in>set seen. fst e = d' \<longrightarrow> snd (snd e) \<le> snd cs')"
    by (auto simp: max_inv_def)
  show "distinct (map fst combined)" by (rule dist)
  show "fst ` set combined = fst ` set seen"
  proof (intro set_eqI iffI)
    fix d assume "d \<in> fst ` set combined"
    then obtain cs where "map_of combined d = Some cs"
      by (metis domIff dom_map_of_conv_image_fst not_Some_eq)
    then have "(d, cs) \<in> set seen" using inv[of d] by simp
    then show "d \<in> fst ` set seen" by force
  next
    fix d assume d: "d \<in> fst ` set seen"
    show "d \<in> fst ` set combined"
    proof (cases "map_of combined d")
      case None
      then show ?thesis using inv[of d] d by simp
    next
      case (Some cs)
      then show ?thesis by (metis domI dom_map_of_conv_image_fst)
    qed
  qed
  show "\<forall>e\<in>set combined. e \<in> set seen \<and> (\<forall>e'\<in>set seen. fst e' = fst e \<longrightarrow> snd (snd e') \<le> snd (snd e))"
  proof
    fix e assume "e \<in> set combined"
    then have "map_of combined (fst e) = Some (snd e)" using dist by simp
    then show "e \<in> set seen \<and> (\<forall>e'\<in>set seen. fst e' = fst e \<longrightarrow> snd (snd e') \<le> snd (snd e))"
      using inv[of "fst e"] by simp
  qed
qed

text \<open>
  C8. \<open>search_with_expansion\<close> runs \<open>search\<close> (with \<open>top_k * 2\<close>) for every variant and
  returns the slice \<open>[:top_k]\<close> of a list that is sorted by descending score and has one
  entry per document id of the variant results; each entry is one of the variant results
  for its document, and no variant result for that document has a greater score: the
  maximum, not the sum.
\<close>

theorem search_with_expansion_keeps_maximum:
  assumes "params_ok self"
  shows "\<exists>rs merged.
           list_all2 (\<lambda>q r. search rt (index_documents rt self docs) q (top_k * 2) = Inr r) queries rs \<and>
           search_with_expansion rt (index_documents rt self docs) queries top_k =
             Inr (py_take top_k merged) \<and>
           sorted (map (\<lambda>e. - snd (snd e)) merged) \<and>
           distinct (map fst merged) \<and>
           fst ` set merged = fst ` set (concat rs) \<and>
           (\<forall>e\<in>set merged. e \<in> set (concat rs) \<and>
              (\<forall>e'\<in>set (concat rs). fst e' = fst e \<longrightarrow> snd (snd e') \<le> snd (snd e)))"
proof -
  let ?idx = "index_documents rt self docs"
  from searches_return[OF assms, of rt docs "top_k * 2" queries] obtain rs where
    rs: "list_all2 (\<lambda>q r. search rt ?idx q (top_k * 2) = Inr r) queries rs" by blast
  from expansion_loop_ok[OF rs max_inv_empty] obtain c where
    c: "expansion_loop rt ?idx top_k queries [] = Inr c" and inv: "max_inv c (concat rs)"
    by auto
  let ?merged = "sort_desc (\<lambda>x. snd (snd x)) c"
  have run: "search_with_expansion rt ?idx queries top_k = Inr (py_take top_k ?merged)"
    by (simp add: search_with_expansion_def c)
  note s = max_inv_sets[OF inv]
  have a: "sorted (map (\<lambda>e. - snd (snd e)) ?merged)" by (rule sorted_sort_desc)
  have b: "distinct (map fst ?merged)" using s(1) by (simp add: distinct_map_sort_desc)
  have d: "fst ` set ?merged = fst ` set (concat rs)" using s(2) by (simp only: set_sort_desc)
  have e: "\<forall>e\<in>set ?merged. e \<in> set (concat rs) \<and>
              (\<forall>e'\<in>set (concat rs). fst e' = fst e \<longrightarrow> snd (snd e') \<le> snd (snd e))"
    using s(3) by (simp only: set_sort_desc)
  show ?thesis
    by (intro exI[of _ rs] exI[of _ ?merged] conjI) (fact rs run a b d e)+
qed

lemmas ascii_simps = tokenize_def ascii_runtime_def lit_def py_split_def ascii_lower_cp_def
  ascii_space_def ascii_word_def ascii_cased_def

lemma tok_a: "tokenize ascii_runtime (bd_content doc_a) = [lit ''python'', lit ''java'']"
  by (simp add: doc_a_def ascii_simps)

lemma tok_b: "tokenize ascii_runtime (bd_content doc_b) = [lit ''python'']"
  by (simp add: doc_b_def ascii_simps)

lemma tok_java: "tokenize ascii_runtime (lit ''java'') = [lit ''java'']"
  by (simp add: ascii_simps)

lemma lit_ne: "lit ''python'' \<noteq> lit ''java''"
  by (simp add: lit_def)

lemma params_default: "params_ok default_bm25"
  by (simp add: params_ok_def default_bm25_def new_bm25_def)

theorem idf_formula_floor_monotone_witness:
  "map_of (bm_idf (index_documents ascii_runtime default_bm25 [doc_a, doc_b])) (lit ''java'') =
     Some (max (ln ((2 - 1 + 5 / 10) / (1 + 5 / 10) + 1)) (25 / 100)) \<and>
   map_of (bm_idf (index_documents ascii_runtime default_bm25 [doc_a, doc_b])) (lit ''python'') =
     Some (max (ln ((2 - 2 + 5 / 10) / (2 + 5 / 10) + 1)) (25 / 100)) \<and>
   max (ln ((2 - 2 + 5 / 10) / (2 + 5 / 10) + 1)) (25 / 100)
     \<le> max (ln ((2 - 1 + 5 / 10) / (1 + 5 / 10) + 1)) (25 / 100 :: real)"
proof -
  have dj: "doc_frequency ascii_runtime [doc_a, doc_b] (lit ''java'') = 1"
    using lit_ne by (simp add: doc_frequency_def tok_a tok_b)
  have dp: "doc_frequency ascii_runtime [doc_a, doc_b] (lit ''python'') = 2"
    by (simp add: doc_frequency_def tok_a tok_b)
  note t = idf_formula_floor_monotone[OF refl, of ascii_runtime default_bm25 "[doc_a, doc_b]"]
  have e: "bm_epsilon default_bm25 = 25 / 100" using t by blast
  have j: "map_of (bm_idf (index_documents ascii_runtime default_bm25 [doc_a, doc_b])) (lit ''java'') =
     Some (max (ln ((2 - 1 + 5 / 10) / (1 + 5 / 10) + 1)) (25 / 100))"
    using t[THEN conjunct2, THEN conjunct1, rule_format, of "lit ''java''"] by (simp add: dj e)
  have p: "map_of (bm_idf (index_documents ascii_runtime default_bm25 [doc_a, doc_b])) (lit ''python'') =
     Some (max (ln ((2 - 2 + 5 / 10) / (2 + 5 / 10) + 1)) (25 / 100))"
    using t[THEN conjunct2, THEN conjunct1, rule_format, of "lit ''python''"] by (simp add: dp e)
  have m: "max (ln ((2 - 2 + 5 / 10) / (2 + 5 / 10) + 1)) (25 / 100)
     \<le> max (ln ((2 - 1 + 5 / 10) / (1 + 5 / 10) + 1)) (25 / 100 :: real)"
    using t[THEN conjunct2, THEN conjunct2, THEN conjunct2, THEN conjunct1, rule_format,
            of "lit ''java''" _ "lit ''python''"] j p dj dp
    by simp
  from j p m show ?thesis by (intro conjI)
qed

theorem search_scores_every_document_witness:
  "\<exists>res. search ascii_runtime (index_documents ascii_runtime default_bm25 [doc_a, doc_b])
            (lit ''java'') 5 = Inr res \<and>
         length res = 2 \<and> (\<exists>e\<in>set res. snd (snd e) = 0)"
proof -
  have q: "tokenize ascii_runtime (lit ''java'') \<noteq> []" by (simp add: tok_java)
  have ma: "matches ascii_runtime (lit ''java'') doc_a"
    by (simp add: matches_def tok_java tok_a)
  have mb: "\<not> matches ascii_runtime (lit ''java'') doc_b"
    using lit_ne by (simp add: matches_def tok_java tok_b)
  from search_scores_every_document[OF params_default q, of "[doc_a, doc_b]" 5]
  show ?thesis using ma mb by auto
qed

theorem search_with_expansion_keeps_maximum_witness:
  "\<exists>rs merged.
     list_all2 (\<lambda>q r. search ascii_runtime (index_documents ascii_runtime default_bm25 [doc_a, doc_b])
                        q (5 * 2) = Inr r) [lit ''java'', lit ''python''] rs \<and>
     search_with_expansion ascii_runtime (index_documents ascii_runtime default_bm25 [doc_a, doc_b])
        [lit ''java'', lit ''python''] 5 = Inr (py_take 5 merged) \<and>
     sorted (map (\<lambda>e. - snd (snd e)) merged) \<and>
     distinct (map fst merged) \<and>
     fst ` set merged = fst ` set (concat rs) \<and>
     (\<forall>e\<in>set merged. e \<in> set (concat rs) \<and>
        (\<forall>e'\<in>set (concat rs). fst e' = fst e \<longrightarrow> snd (snd e') \<le> snd (snd e)))"
  by (rule search_with_expansion_keeps_maximum) (rule params_default)

text \<open>
  The documents of the index after \<open>add_documents\<close> are the new ones only, whatever the
  index held before.
\<close>

lemma add_documents_ignores_existing:
  "bm_documents (add_documents rt self doc_ids candidate_ids contents None) =
     map (\<lambda>(doc_id, cand_id, content).
            \<lparr>bd_id = doc_id, bd_candidate_id = cand_id, bd_content = content,
             bd_tokens = tokenize rt content, bd_metadata = []\<rparr>)
         (zip doc_ids (zip candidate_ids contents))"
proof -
  have z: "zip4 xs ys zs (map (\<lambda>_. m) xs) = map (\<lambda>(x, y, z). (x, y, z, m)) (zip xs (zip ys zs))"
    for xs :: "string list" and ys :: "string list" and zs :: "pystr list" and m :: "(string \<times> string) list"
  proof (induction xs arbitrary: ys zs)
    case Nil
    then show ?case by simp
  next
    case (Cons x xs)
    then show ?case by (cases ys; cases zs) auto
  qed
  show ?thesis
    by (simp add: add_documents_def index_documents_def Let_def z split_def comp_def)
qed

text \<open>
  \<open>add_candidate_chunks\<close> on a built index is a full rebuild over the existing documents
  followed by the new ones.
\<close>

lemma add_candidate_chunks_reindexes_union:
  "add_candidate_chunks rt (index_documents rt self docs) chunk_ids cand_id contents =
     index_documents rt self
       (docs @ map (\<lambda>(chunk_id, content).
                      \<lparr>bd_id = chunk_id, bd_candidate_id = cand_id, bd_content = content,
                       bd_tokens = [], bd_metadata = []\<rparr>)
                   (zip chunk_ids contents))"
  by (simp add: add_candidate_chunks_def index_documents_def Let_def comp_def)

text \<open>
  C3 fails for \<open>BM25Search.add_documents\<close>: on an index holding document \<open>d1\<close>, adding
  \<open>d2\<close> leaves an index of \<open>d2\<close> alone, and the term \<open>java\<close> of \<open>d1\<close> has lost its
  document frequency. \<open>add_candidate_chunks\<close>, on the same input, keeps both documents.
\<close>

theorem add_documents_drops_existing:
  "map bd_id (bm_documents (add_documents ascii_runtime
       (index_documents ascii_runtime default_bm25 [doc_a]) [''d2''] [''c2''] [lit ''python''] None))
     = [''d2''] \<and>
   map_of (bm_doc_freqs (add_documents ascii_runtime
       (index_documents ascii_runtime default_bm25 [doc_a]) [''d2''] [''c2''] [lit ''python''] None))
       (lit ''java'') = None \<and>
   map_of (bm_doc_freqs (index_documents ascii_runtime default_bm25 [doc_a])) (lit ''java'') = Some 1 \<and>
   map bd_id (bm_documents (add_candidate_chunks ascii_runtime
       (index_documents ascii_runtime default_bm25 [doc_a]) [''d2''] ''c2'' [lit ''python'']))
     = [''d1'', ''d2'']"
proof -
  have tp: "tokenize ascii_runtime (lit ''python'') = [lit ''python'']"
    by (simp add: ascii_simps)
  have a: "map bd_id (bm_documents (add_documents ascii_runtime
       (index_documents ascii_runtime default_bm25 [doc_a]) [''d2''] [''c2''] [lit ''python''] None))
     = [''d2'']"
    by (simp add: add_documents_ignores_existing)
  have b: "map_of (bm_doc_freqs (add_documents ascii_runtime
       (index_documents ascii_runtime default_bm25 [doc_a]) [''d2''] [''c2''] [lit ''python''] None))
       (lit ''java'') = None"
    using lit_ne by (simp add: add_documents_def index_doc_freqs doc_frequency_def tp)
  have c: "map_of (bm_doc_freqs (index_documents ascii_runtime default_bm25 [doc_a])) (lit ''java'') = Some 1"
    by (simp add: index_doc_freqs doc_frequency_def tok_a)
  have d: "map bd_id (bm_documents (add_candidate_chunks ascii_runtime
       (index_documents ascii_runtime default_bm25 [doc_a]) [''d2''] ''c2'' [lit ''python'']))
     = [''d1'', ''d2'']"
    by (subst add_candidate_chunks_reindexes_union) (simp add: index_documents_def Let_def doc_a_def)
  from a b c d show ?thesis by (intro conjI)
qed

section \<open>Properties of query expansion\<close>

lemmas qe_simps = expand_query_def fallback_expansion_def title_expansions_def vn_translate_def
  title_mappings_def vn_mappings_def py_replace_def py_strip_def py_take_def
  ascii_runtime_def lit_def ascii_lower_cp_def ascii_upper_cp_def ascii_cased_def ascii_space_def

lemma unique_queries_keys:
  assumes "strip_lower_stable rt"
  shows "distinct (map (dedup_key rt) (unique_queries rt seen qs)) \<and>
         set (map (dedup_key rt) (unique_queries rt seen qs)) \<inter> set seen = {}"
proof (induction qs arbitrary: seen)
  case Nil
  then show ?case by simp
next
  case (Cons q qs)
  have k: "dedup_key rt (py_strip rt q) = py_strip rt (str_lower rt q)"
    using assms by (simp add: dedup_key_def strip_lower_stable_def)
  show ?case
  proof (cases "py_strip rt (str_lower rt q) \<in> set seen")
    case True
    then show ?thesis using Cons.IH[of seen] by (simp add: Let_def)
  next
    case False
    from Cons.IH[of "py_strip rt (str_lower rt q) # seen"]
    show ?thesis using False by (auto simp: Let_def k)
  qed
qed

lemma py_take_nonneg: "0 \<le> n \<Longrightarrow> py_take n xs = take (nat n) xs"
  by (simp add: py_take_def)

text \<open>
  C10. For every query, every outcome of the language model and every
  \<open>max_expansions \<ge> 0\<close>, \<open>expand_query\<close> returns a non-empty list whose first element is the
  stripped query, whose entries are pairwise distinct under lower-casing and stripping, and
  whose length is at most \<open>max_expansions + 1\<close>.
\<close>

theorem expand_query_shape:
  assumes "0 \<le> max_expansions" and "strip_lower_stable rt"
  shows "expand_query rt llm query max_expansions \<noteq> [] \<and>
         hd (expand_query rt llm query max_expansions) = py_strip rt query \<and>
         distinct (map (\<lambda>q. py_strip rt (str_lower rt q)) (expand_query rt llm query max_expansions)) \<and>
         int (length (expand_query rt llm query max_expansions)) \<le> max_expansions + 1"
proof -
  define extra where "extra = (case llm of
               LlmReturns expansions \<Rightarrow> py_take max_expansions expansions
             | LlmFails \<Rightarrow> fallback_expansion rt query
             | NoClient \<Rightarrow> fallback_expansion rt query)"
  define rest where "rest = unique_queries rt [py_strip rt (str_lower rt query)] extra"
  have n: "nat (max_expansions + 1) = Suc (nat max_expansions)" using assms(1) by simp
  have u: "unique_queries rt [] ([query] @ extra) = py_strip rt query # rest"
    by (simp add: rest_def Let_def)
  have e: "expand_query rt llm query max_expansions = py_strip rt query # take (nat max_expansions) rest"
    using assms(1) unfolding expand_query_def Let_def extra_def[symmetric] u
    by (simp add: py_take_nonneg n)
  have "distinct (map (dedup_key rt) (unique_queries rt [] ([query] @ extra)))"
    using unique_queries_keys[OF assms(2)] by blast
  then have "distinct (map (dedup_key rt) (py_strip rt query # rest))" by (simp only: u)
  then have "distinct (take (Suc (nat max_expansions)) (map (dedup_key rt) (py_strip rt query # rest)))"
    by (rule distinct_take)
  then have d: "distinct (map (dedup_key rt) (py_strip rt query # take (nat max_expansions) rest))"
    by (simp add: take_map)
  have d': "distinct (map (\<lambda>q. py_strip rt (str_lower rt q)) (py_strip rt query # take (nat max_expansions) rest))"
    using d unfolding dedup_key_def[abs_def] .
  have l: "int (length (py_strip rt query # take (nat max_expansions) rest)) \<le> max_expansions + 1"
    using assms(1) by simp
  show ?thesis unfolding e using d' l by simp
qed

lemma replace_absent:
  "\<not> py_contains old s \<Longrightarrow> replace_from old new 0 s = s"
  by (induction s) auto

lemma py_replace_absent:
  "old \<noteq> [] \<Longrightarrow> \<not> py_contains old s \<Longrightarrow> py_replace s old new = s"
  by (simp add: py_replace_def replace_absent)

lemma fallback_empty:
  assumes idem: "str_lower rt (str_lower rt query) = str_lower rt query"
      and keys: "\<forall>key\<in>set fallback_keys. \<not> py_contains key (str_lower rt query)"
  shows "fallback_expansion rt query = []"
proof -
  let ?q = "str_lower rt query"
  have t: "title_expansions rt ?q = []"
    using keys by (simp add: title_expansions_def title_mappings_def fallback_keys_def)
  have r: "py_replace ?q (lit k) v = ?q" if "lit k \<in> set fallback_keys" "k \<noteq> []" for k v
    using that keys by (intro py_replace_absent) (auto simp: lit_def)
  have v: "vn_translate rt query = ?q"
    by (simp add: vn_translate_def vn_mappings_def idem r fallback_keys_def title_mappings_def)
  show ?thesis
    by (simp add: fallback_expansion_def Let_def t v idem)
qed

text \<open>
  C6 (amended). When there is no client or the call fails, \<open>expand_query\<close> returns the
  original query followed by the rule-based fallback expansions, without duplicates and cut
  to \<open>max_expansions + 1\<close>; it is exactly the stripped query alone when
  \<open>max_expansions \<ge> 0\<close> and the lower-cased query holds none of the fallback keywords.
\<close>

theorem expand_query_degrades_to_fallback:
  assumes "llm = NoClient \<or> llm = LlmFails"
  shows "expand_query rt llm query max_expansions =
           py_take (max_expansions + 1) (unique_queries rt [] (query # fallback_expansion rt query)) \<and>
         (0 \<le> max_expansions \<and> str_lower rt (str_lower rt query) = str_lower rt query \<and>
          (\<forall>key\<in>set fallback_keys. \<not> py_contains key (str_lower rt query))
            \<longrightarrow> expand_query rt llm query max_expansions = [py_strip rt query])"
proof -
  have a: "expand_query rt llm query max_expansions =
           py_take (max_expansions + 1) (unique_queries rt [] (query # fallback_expansion rt query))"
    using assms by (auto simp: expand_query_def)
  have b: "expand_query rt llm query max_expansions = [py_strip rt query]"
    if "0 \<le> max_expansions" "str_lower rt (str_lower rt query) = str_lower rt query"
       "\<forall>key\<in>set fallback_keys. \<not> py_contains key (str_lower rt query)"
  proof -
    have "fallback_expansion rt query = []" using that(2,3) by (rule fallback_empty)
    then show ?thesis using that(1) by (simp add: a py_take_nonneg Let_def)
  qed
  from a b show ?thesis by blast
qed

lemma ascii_space_lower: "ascii_space (ascii_lower_cp c) = ascii_space c"
  by (auto simp: ascii_space_def ascii_lower_cp_def)

lemma strip_idem: "py_strip rt (py_strip rt s) = py_strip rt s"
proof -
  let ?P = "is_space rt"
  let ?t = "dropWhile ?P s"
  let ?u = "rev (dropWhile ?P (rev ?t))"
  have a: "dropWhile ?P ?u = ?u"
  proof (cases "?u = []")
    case True
    show ?thesis unfolding True by (rule dropWhile.simps(1))
  next
    case False
    then have ne: "dropWhile ?P (rev ?t) \<noteq> []" by simp
    have tne: "?t \<noteq> []"
    proof
      assume e: "?t = []"
      have "dropWhile ?P (rev ?t) = []" unfolding e by simp
      with ne show False by contradiction
    qed
    have "rev ?t = takeWhile ?P (rev ?t) @ dropWhile ?P (rev ?t)"
      by (simp only: takeWhile_dropWhile_id)
    then have "rev (rev ?t) = rev (takeWhile ?P (rev ?t) @ dropWhile ?P (rev ?t))"
      by (rule arg_cong)
    then have "?t = ?u @ rev (takeWhile ?P (rev ?t))"
      by (simp only: rev_append rev_rev_ident)
    then have "hd ?t = hd (?u @ rev (takeWhile ?P (rev ?t)))" by (rule arg_cong)
    also have "\<dots> = hd ?u" using False by (rule hd_append2)
    finally have "hd ?t = hd ?u" .
    moreover have "\<not> ?P (hd ?t)" using tne by (rule hd_dropWhile)
    ultimately have "\<not> ?P (hd ?u)" by simp
    then show ?thesis by (simp only: dropWhile_eq_self_iff) simp
  qed
  have b: "dropWhile ?P (rev ?u) = rev ?u"
    unfolding rev_rev_ident by (rule dropWhile_idem)
  show ?thesis by (simp add: py_strip_def a b)
qed

lemma ascii_strip_lower_stable: "strip_lower_stable ascii_runtime"
proof -
  have sp: "ascii_space \<circ> ascii_lower_cp = ascii_space"
    by (rule ext) (simp add: ascii_space_lower)
  have m: "py_strip ascii_runtime (map ascii_lower_cp s) = map ascii_lower_cp (py_strip ascii_runtime s)" for s
    by (simp add: py_strip_def ascii_runtime_def dropWhile_map rev_map sp)
  have "py_strip ascii_runtime (str_lower ascii_runtime (py_strip ascii_runtime s)) =
        py_strip ascii_runtime (str_lower ascii_runtime s)" for s
  proof -
    have "py_strip ascii_runtime (str_lower ascii_runtime (py_strip ascii_runtime s)) =
          map ascii_lower_cp (py_strip ascii_runtime (py_strip ascii_runtime s))"
      using m[of "py_strip ascii_runtime s"] by (simp add: ascii_runtime_def)
    also have "\<dots> = map ascii_lower_cp (py_strip ascii_runtime s)" by (simp only: strip_idem)
    also have "\<dots> = py_strip ascii_runtime (str_lower ascii_runtime s)"
      using m[of s] by (simp add: ascii_runtime_def)
    finally show ?thesis .
  qed
  then show ?thesis by (simp add: strip_lower_stable_def)
qed

theorem expand_query_shape_witness:
  "expand_query ascii_runtime (LlmReturns [lit ''Sr.'', lit ''sr. '']) (lit ''senior '') 1 \<noteq> [] \<and>
   hd (expand_query ascii_runtime (LlmReturns [lit ''Sr.'', lit ''sr. '']) (lit ''senior '') 1)
     = py_strip ascii_runtime (lit ''senior '') \<and>
   distinct (map (\<lambda>q. py_strip ascii_runtime (str_lower ascii_runtime q))
     (expand_query ascii_runtime (LlmReturns [lit ''Sr.'', lit ''sr. '']) (lit ''senior '') 1)) \<and>
   int (length (expand_query ascii_runtime (LlmReturns [lit ''Sr.'', lit ''sr. '']) (lit ''senior '') 1))
     \<le> 1 + 1"
  by (rule expand_query_shape) (simp_all add: ascii_strip_lower_stable)

theorem expand_query_degrades_to_fallback_witness:
  "expand_query ascii_runtime NoClient (lit '' Python '') 5 = [py_strip ascii_runtime (lit '' Python '')]"
proof -
  have k: "\<forall>key\<in>set fallback_keys. \<not> py_contains key (str_lower ascii_runtime (lit '' Python ''))"
    by (simp add: fallback_keys_def title_mappings_def vn_mappings_def ascii_runtime_def lit_def
          ascii_lower_cp_def)
  have i: "str_lower ascii_runtime (str_lower ascii_runtime (lit '' Python '')) =
           str_lower ascii_runtime (lit '' Python '')"
    by (simp add: ascii_runtime_def lit_def ascii_lower_cp_def)
  have h: "NoClient = NoClient \<or> NoClient = LlmFails" by simp
  have z: "(0::int) \<le> 5" by simp
  from expand_query_degrades_to_fallback[OF h, of ascii_runtime "lit '' Python ''" 5] z k i
  show ?thesis by blast
qed

text \<open>
  C6 as stated fails: for the query \<open>senior\<close> a failing or absent provider yields three
  variants, not the singleton list.
\<close>

theorem expand_query_fallback_counterexample:
  "expand_query ascii_runtime LlmFails (lit ''senior'') 5 =
     [lit ''senior'', lit ''Sr.'', lit ''Experienced''] \<and>
   expand_query ascii_runtime NoClient (lit ''senior'') 5 =
     [lit ''senior'', lit ''Sr.'', lit ''Experienced''] \<and>
   [lit ''senior'', lit ''Sr.'', lit ''Experienced''] \<noteq> [lit ''senior'']"
  by (simp add: qe_simps)

section \<open>Properties of the three-layer fallback\<close>




section \<open>Properties of the result cache\<close>





end
